theory Spec2Isabelle
  imports Main
begin

section \<open>Exceptions\<close>

text \<open>
  Python exceptions as values. \<open>KeyError\<close>, \<open>OverflowError\<close> and \<open>Exception\<close> (any other
  class derived from \<open>Exception\<close>, with its message) are what a handler
  \<^verbatim>\<open>except Exception\<close> catches. \<open>CancelledError\<close> (asyncio, Python 3.8 and later) and
  \<open>KeyboardInterrupt\<close> derive from \<open>BaseException\<close> only and pass such a handler.
\<close>

datatype exn =
    Exception string
  | KeyError string
  | OverflowError string
  | CancelledError
  | KeyboardInterrupt

fun is_Exception :: "exn \<Rightarrow> bool" where
  "is_Exception (Exception m) = True"
| "is_Exception (KeyError k) = True"
| "is_Exception (OverflowError m) = True"
| "is_Exception CancelledError = False"
| "is_Exception KeyboardInterrupt = False"

section \<open>storage.py\<close>

text \<open>
  \<open>datetime.now().isoformat()\<close> yields strings whose lexicographic order is the order of
  the instants (fixed-width fields, the fraction only appended when it is not zero), and the
  code compares them only with \<open><\<close>. A timestamp is therefore the number of microseconds
  since \<open>0001-01-01T00:00:00\<close>, the smallest \<open>datetime\<close>. The clock reading is an argument
  of every function that calls \<open>datetime.now()\<close>.
\<close>

type_synonym timestamp = int

record ListingRecord =
  listing_id :: string
  title :: string
  first_seen :: timestamp
  last_seen :: timestamp
  notified :: bool

text \<open>
  A Python \<open>dict\<close> keeps its keys in insertion order and holds each key once: an
  association list with distinct keys. \<open>d[k] = v\<close> replaces the value in place or appends;
  \<open>del d[k]\<close> raises \<open>KeyError\<close> for an absent key.
\<close>

definition dict_contains :: "string \<Rightarrow> (string \<times> 'v) list \<Rightarrow> bool" where
  "dict_contains k d = (map_of d k \<noteq> None)"

definition dict_keys :: "(string \<times> 'v) list \<Rightarrow> string list" where
  "dict_keys d = map fst d"

fun dict_setitem :: "string \<Rightarrow> 'v \<Rightarrow> (string \<times> 'v) list \<Rightarrow> (string \<times> 'v) list" where
  "dict_setitem k v [] = [(k, v)]"
| "dict_setitem k v (p # ps) = (if fst p = k then (k, v) # ps else p # dict_setitem k v ps)"

fun dict_delitem :: "string \<Rightarrow> (string \<times> 'v) list \<Rightarrow> exn + (string \<times> 'v) list" where
  "dict_delitem k [] = Inl (KeyError k)"
| "dict_delitem k (p # ps) =
     (if fst p = k then Inr ps
      else (case dict_delitem k ps of Inl e \<Rightarrow> Inl e | Inr ps' \<Rightarrow> Inr (p # ps')))"

text \<open>
  The state of a \<open>ListingStorage\<close> object is its \<open>_listings\<close> dict. \<open>_save\<close> writes the
  file mirror and swallows \<open>IOError\<close>; it never changes \<open>_listings\<close> and is left out, as is
  the lock.
\<close>

type_synonym ListingStorage = "(string \<times> ListingRecord) list"

definition wf_store :: "ListingStorage \<Rightarrow> bool" where
  "wf_store st = distinct (dict_keys st)"

definition has_seen :: "string \<Rightarrow> ListingStorage \<Rightarrow> bool" where
  "has_seen lid st = dict_contains lid st"

definition mark_seen ::
  "timestamp \<Rightarrow> string \<Rightarrow> string \<Rightarrow> bool \<Rightarrow> ListingStorage \<Rightarrow> ListingStorage" where
  "mark_seen now lid ttl ntf st =
     (if dict_contains lid st
      then (case map_of st lid of
              Some r \<Rightarrow> dict_setitem lid (r\<lparr>last_seen := now\<rparr>) st
            | None \<Rightarrow> st)
      else dict_setitem lid
             \<lparr>ListingRecord.listing_id = lid, title = ttl, first_seen = now, last_seen = now, notified = ntf\<rparr>
             st)"

text \<open>The method returns the set difference; the storage is returned as it was passed.\<close>

definition get_new_listings :: "string set \<Rightarrow> ListingStorage \<Rightarrow> string set \<times> ListingStorage" where
  "get_new_listings listing_ids st = (listing_ids - set (dict_keys st), st)"

text \<open>
  \<open>timedelta(days=days)\<close> raises \<open>OverflowError\<close> beyond 999999999 days, and
  \<open>datetime - timedelta\<close> raises it when the result leaves the years 1 to 9999.
\<close>

definition day_us :: int where
  "day_us = 86400000000"

definition datetime_max :: timestamp where
  "datetime_max = 3652059 * day_us - 1"

definition timedelta_days :: "int \<Rightarrow> exn + int" where
  "timedelta_days days =
     (if \<bar>days\<bar> \<le> 999999999 then Inr (days * day_us)
      else Inl (OverflowError ''days must have magnitude <= 999999999''))"

definition datetime_sub :: "timestamp \<Rightarrow> int \<Rightarrow> exn + timestamp" where
  "datetime_sub t delta =
     (if 0 \<le> t - delta \<and> t - delta \<le> datetime_max then Inr (t - delta)
      else Inl (OverflowError ''date value out of range''))"

definition cutoff_of :: "timestamp \<Rightarrow> int \<Rightarrow> exn + timestamp" where
  "cutoff_of now days =
     (case timedelta_days days of Inl e \<Rightarrow> Inl e | Inr delta \<Rightarrow> datetime_sub now delta)"

fun del_each :: "string list \<Rightarrow> ListingStorage \<Rightarrow> exn + ListingStorage" where
  "del_each [] st = Inr st"
| "del_each (k # ks) st =
     (case dict_delitem k st of Inl e \<Rightarrow> Inl e | Inr st' \<Rightarrow> del_each ks st')"

definition old_listings :: "timestamp \<Rightarrow> ListingStorage \<Rightarrow> string list" where
  "old_listings cutoff st = map fst (filter (\<lambda>p. last_seen (snd p) < cutoff) st)"

definition cleanup :: "timestamp \<Rightarrow> int \<Rightarrow> ListingStorage \<Rightarrow> exn + (nat \<times> ListingStorage)" where
  "cleanup now days st =
     (case cutoff_of now days of
        Inl e \<Rightarrow> Inl e
      | Inr cutoff \<Rightarrow>
          (case del_each (old_listings cutoff st) st of
             Inl e \<Rightarrow> Inl e
           | Inr st' \<Rightarrow> Inr (length (old_listings cutoff st), st')))"

section \<open>config.py\<close>

text \<open>
  The configuration sections, with the fields the monitor reads. Their values come from the
  process environment; here they are given.
\<close>

record TelegramConfig =
  enabled :: bool

record WhatsAppConfig =
  enabled :: bool

text \<open>The field \<open>keywords\<close> of \<open>SearchConfig\<close> is named \<open>search_keywords\<close> here.\<close>

record SearchConfig =
  search_keywords :: "string list"

record MonitorConfig =
  check_interval_seconds :: int
  max_retries :: int
  retry_delay_seconds :: int
  cleanup_days :: int

record Config =
  telegram :: TelegramConfig
  whatsapp :: WhatsAppConfig
  search :: SearchConfig
  monitor :: MonitorConfig

definition validate :: "Config \<Rightarrow> string list" where
  "validate cfg =
     (if \<not> TelegramConfig.enabled (telegram cfg) \<and> \<not> WhatsAppConfig.enabled (whatsapp cfg)
      then [''No notification method configured. Enable Telegram or WhatsApp.''] else [])
     @ (if search_keywords (search cfg) = []
        then [''No search keywords configured. Set SEARCH_KEYWORDS env var.''] else [])"

section \<open>notifications.py\<close>

record Listing =
  listing_id :: string
  title :: string
  price :: string
  location :: string
  url :: string
  image_url :: "string option"
  description :: "string option"

text \<open>
  \<^verbatim>\<open>try: body except Exception as e: handler\<close>: an exception raised by the body is handled
  only when it derives from \<open>Exception\<close>.
\<close>

definition try_except :: "exn + 'a \<Rightarrow> (exn \<Rightarrow> exn + 'a) \<Rightarrow> exn + 'a" where
  "try_except body handler =
     (case body of Inr v \<Rightarrow> Inr v | Inl e \<Rightarrow> if is_Exception e then handler e else Inl e)"

text \<open>
  The Telegram bot is the transport, an outside party: its behaviour is an input. Within one
  call of \<open>notify_listings\<close> the calls made for the \<open>k\<close>-th listing of the batch have the
  outcomes below, \<open>None\<close> when the call returns and \<open>Some e\<close> when it raises \<open>e\<close>.
\<close>

record transport =
  get_bot :: "nat \<Rightarrow> exn option"
  send_photo :: "nat \<Rightarrow> Listing \<Rightarrow> exn option"
  send_message :: "nat \<Rightarrow> Listing \<Rightarrow> exn option"

definition call :: "exn option \<Rightarrow> exn + unit" where
  "call outcome = (case outcome of None \<Rightarrow> Inr () | Some e \<Rightarrow> Inl e)"

text \<open>Truth value of an \<open>Optional[str]\<close>: \<open>None\<close> and the empty string are false.\<close>

definition truthy :: "string option \<Rightarrow> bool" where
  "truthy s = (s \<noteq> None \<and> s \<noteq> Some [])"

definition send_listing :: "transport \<Rightarrow> nat \<Rightarrow> Listing \<Rightarrow> exn + bool" where
  "send_listing tr k listing =
     try_except
       (case call (get_bot tr k) of
          Inl e \<Rightarrow> Inl e
        | Inr u \<Rightarrow>
            (case (if truthy (image_url listing)
                   then try_except (call (send_photo tr k listing))
                          (\<lambda>e. call (send_message tr k listing))
                   else call (send_message tr k listing)) of
               Inl e \<Rightarrow> Inl e
             | Inr u \<Rightarrow> Inr True))
       (\<lambda>e. Inr False)"

definition notify_listing :: "Config \<Rightarrow> transport \<Rightarrow> nat \<Rightarrow> Listing \<Rightarrow> exn + bool" where
  "notify_listing cfg tr k listing =
     (if TelegramConfig.enabled (telegram cfg) then send_listing tr k listing else Inr False)"

text \<open>
  The loop of \<open>notify_listings\<close>, with its counter. Beside the result it returns the
  listings for which \<open>notify_listing\<close> was called: the notification attempts. The pacing
  \<open>asyncio.sleep(1)\<close> changes no data and is left out.
\<close>

fun notify_loop ::
  "Config \<Rightarrow> transport \<Rightarrow> nat \<Rightarrow> Listing list \<Rightarrow> nat \<Rightarrow> Listing list \<times> (exn + nat)" where
  "notify_loop cfg tr k [] success_count = ([], Inr success_count)"
| "notify_loop cfg tr k (listing # rest) success_count =
     (case notify_listing cfg tr k listing of
        Inl e \<Rightarrow> ([listing], Inl e)
      | Inr ok \<Rightarrow>
          (case notify_loop cfg tr (Suc k) rest (if ok then success_count + 1 else success_count) of
             (attempted, r) \<Rightarrow> (listing # attempted, r)))"

definition notify_listings :: "Config \<Rightarrow> transport \<Rightarrow> Listing list \<Rightarrow> Listing list \<times> (exn + nat)" where
  "notify_listings cfg tr listings = notify_loop cfg tr 0 listings 0"

section \<open>monitor.py\<close>

text \<open>
  What one check cycle meets outside the program: the outcome of the scraper's search for the
  \<open>k\<close>-th keyword, the transport, the clock read by the \<open>k\<close>-th \<open>mark_seen\<close> of the cycle
  and the clock read by \<open>cleanup\<close>. The pacing sleeps and the log lines of the cycle
  change no data and are left out.
\<close>

record cycle_env =
  scraper_search :: "nat \<Rightarrow> string \<Rightarrow> exn + Listing list"
  telegram_bot :: transport
  mark_now :: "nat \<Rightarrow> timestamp"
  cleanup_now :: timestamp

fun search_loop ::
  "(nat \<Rightarrow> string \<Rightarrow> exn + Listing list) \<Rightarrow> nat \<Rightarrow> string list \<Rightarrow> Listing list \<Rightarrow> exn + Listing list" where
  "search_loop srch k [] all_listings = Inr all_listings"
| "search_loop srch k (keyword # rest) all_listings =
     (case try_except
             (case srch k keyword of
                Inl e \<Rightarrow> Inl e
              | Inr listings \<Rightarrow> Inr (all_listings @ listings))
             (\<lambda>e. Inr all_listings) of
        Inl e \<Rightarrow> Inl e
      | Inr all_listings' \<Rightarrow> search_loop srch (Suc k) rest all_listings')"

fun unique_loop :: "Listing list \<Rightarrow> string set \<Rightarrow> Listing list \<Rightarrow> Listing list" where
  "unique_loop [] seen_ids unique_listings = unique_listings"
| "unique_loop (listing # rest) seen_ids unique_listings =
     (if Listing.listing_id listing \<notin> seen_ids
      then unique_loop rest (insert (Listing.listing_id listing) seen_ids)
             (unique_listings @ [listing])
      else unique_loop rest seen_ids unique_listings)"

definition search_all_keywords :: "Config \<Rightarrow> cycle_env \<Rightarrow> exn + Listing list" where
  "search_all_keywords cfg env =
     (case search_loop (scraper_search env) 0 (search_keywords (search cfg)) [] of
        Inl e \<Rightarrow> Inl e
      | Inr all_listings \<Rightarrow> Inr (unique_loop all_listings {} []))"

fun mark_all :: "(nat \<Rightarrow> timestamp) \<Rightarrow> nat \<Rightarrow> Listing list \<Rightarrow> ListingStorage \<Rightarrow> ListingStorage" where
  "mark_all clock k [] st = st"
| "mark_all clock k (listing # rest) st =
     mark_all clock (Suc k) rest
       (mark_seen (clock k) (Listing.listing_id listing) (Listing.title listing) True st)"

text \<open>
  \<open>_process_listings\<close> returns the count or the exception that leaves it, the notification
  attempts made, and the storage.
\<close>

definition process_listings ::
  "Config \<Rightarrow> cycle_env \<Rightarrow> Listing list \<Rightarrow> ListingStorage
     \<Rightarrow> (exn + nat) \<times> Listing list \<times> ListingStorage" where
  "process_listings cfg env listings st =
     (if listings = [] then (Inr 0, [], st)
      else
        (case get_new_listings (set (map Listing.listing_id listings)) st of
           (new_ids, st1) \<Rightarrow>
             if new_ids = {} then (Inr 0, [], st1)
             else
               (case notify_listings cfg (telegram_bot env)
                       (filter (\<lambda>l. Listing.listing_id l \<in> new_ids) listings) of
                  (attempted, Inl e) \<Rightarrow> (Inl e, attempted, st1)
                | (attempted, Inr success_count) \<Rightarrow>
                    (Inr success_count, attempted,
                     mark_all (mark_now env) 0
                       (filter (\<lambda>l. Listing.listing_id l \<in> new_ids) listings) st1))))"

text \<open>The body of the \<open>try\<close> statement of \<open>check_once\<close>.\<close>

definition check_body ::
  "Config \<Rightarrow> cycle_env \<Rightarrow> ListingStorage \<Rightarrow> (exn + nat) \<times> Listing list \<times> ListingStorage" where
  "check_body cfg env st =
     (case search_all_keywords cfg env of
        Inl e \<Rightarrow> (Inl e, [], st)
      | Inr listings \<Rightarrow>
          (case process_listings cfg env listings st of
             (Inl e, attempted, st1) \<Rightarrow> (Inl e, attempted, st1)
           | (Inr notification_count, attempted, st1) \<Rightarrow>
               (case cleanup (cleanup_now env) (cleanup_days (monitor cfg)) st1 of
                  Inl e \<Rightarrow> (Inl e, attempted, st1)
                | Inr (removed, st2) \<Rightarrow> (Inr notification_count, attempted, st2))))"

definition check_once ::
  "Config \<Rightarrow> cycle_env \<Rightarrow> ListingStorage \<Rightarrow> (exn + nat) \<times> Listing list \<times> ListingStorage" where
  "check_once cfg env st =
     (case check_body cfg env st of
        (Inl e, attempted, st') \<Rightarrow>
          if is_Exception e then (Inr 0, attempted, st') else (Inl e, attempted, st')
      | (Inr notification_count, attempted, st') \<Rightarrow> (Inr notification_count, attempted, st'))"

text \<open>
  \<open>run\<close>. The monitor object carries the flag \<open>_running\<close>. What \<open>run\<close> does outside
  the program is recorded as a list of events. The loop has no bound of its own, so it is
  run against a finite script: for each iteration, whether \<open>stop()\<close> was called before the
  loop test, and what awaiting \<open>check_once()\<close> gives. When the script is used up the loop
  is still going (\<open>More\<close>).
\<close>

record Monitor =
  running :: bool

datatype event =
    LogError string
  | InitScraper
  | StartupStatus
  | CheckOnce
  | Sleep int
  | CloseScraper
  | ShutdownStatus

record iteration =
  stop_requested :: bool
  check_result :: "exn + nat"

datatype loop_end = Flag_cleared | Propagated exn | More

definition prepend ::
  "event list \<Rightarrow> loop_end \<times> Monitor \<times> int \<times> event list \<Rightarrow> loop_end \<times> Monitor \<times> int \<times> event list" where
  "prepend evs res = (case res of (le, m, rc, tr) \<Rightarrow> (le, m, rc, evs @ tr))"

fun run_loop ::
  "MonitorConfig \<Rightarrow> iteration list \<Rightarrow> Monitor \<Rightarrow> int \<Rightarrow> loop_end \<times> Monitor \<times> int \<times> event list" where
  "run_loop mc [] m retry_count = (More, m, retry_count, [])"
| "run_loop mc (it # rest) m retry_count =
     (if stop_requested it \<or> \<not> running m
      then (Flag_cleared, m\<lparr>running := False\<rparr>, retry_count, [])
      else
        (case check_result it of
           Inr notification_count \<Rightarrow>
             prepend [CheckOnce, Sleep (check_interval_seconds mc)] (run_loop mc rest m 0)
         | Inl e \<Rightarrow>
             if is_Exception e
             then
               (if retry_count + 1 \<ge> max_retries mc
                then prepend [CheckOnce, Sleep (retry_delay_seconds mc), Sleep (min (30 * 0) 300)]
                       (run_loop mc rest m 0)
                else prepend [CheckOnce, Sleep (min (30 * (retry_count + 1)) 300)]
                       (run_loop mc rest m (retry_count + 1)))
             else (Propagated e, m, retry_count, [CheckOnce])))"

definition shutdown :: "Monitor \<Rightarrow> Monitor \<times> event list" where
  "shutdown m = (m\<lparr>running := False\<rparr>, [CloseScraper, ShutdownStatus])"

datatype run_end = Returned | Raised exn | Looping

definition run :: "Config \<Rightarrow> iteration list \<Rightarrow> Monitor \<Rightarrow> run_end \<times> Monitor \<times> event list" where
  "run cfg script m =
     (if validate cfg \<noteq> []
      then (Returned, m\<lparr>running := True\<rparr>,
            LogError ''Configuration errors:''
              # map (\<lambda>error. LogError (''  - '' @ error)) (validate cfg))
      else
        (case run_loop (monitor cfg) script (m\<lparr>running := True\<rparr>) 0 of
           (More, m', rc, tr) \<Rightarrow> (Looping, m', InitScraper # StartupStatus # tr)
         | (Flag_cleared, m', rc, tr) \<Rightarrow>
             (case shutdown m' of
                (m'', evs) \<Rightarrow> (Returned, m'', InitScraper # StartupStatus # tr @ evs))
         | (Propagated e, m', rc, tr) \<Rightarrow>
             (case shutdown m' of
                (m'', evs) \<Rightarrow>
                  (if e = CancelledError then Returned else Raised e, m'',
                   InitScraper # StartupStatus # tr @ evs))))"

fun sleeps :: "event list \<Rightarrow> int list" where
  "sleeps [] = []"
| "sleeps (Sleep d # evs) = d # sleeps evs"
| "sleeps (ev # evs) = sleeps evs"

text \<open>
  The script that the program itself gives its loop: the iteration for the \<open>k\<close>-th cycle
  awaits \<open>check_once\<close> in the \<open>k\<close>-th environment, on the storage that the cycles
  before it have left.
\<close>

fun cycle_script :: "Config \<Rightarrow> (bool \<times> cycle_env) list \<Rightarrow> ListingStorage \<Rightarrow> iteration list" where
  "cycle_script cfg [] st = []"
| "cycle_script cfg (c # rest) st =
     \<lparr>stop_requested = fst c, check_result = fst (check_once cfg (snd c) st)\<rparr>
       # cycle_script cfg rest (snd (snd (check_once cfg (snd c) st)))"

section \<open>Notions used in the statements\<close>

text \<open>
  Every failure of the transport is an error, an exception derived from \<open>Exception\<close>.
\<close>

definition channel_errors :: "transport \<Rightarrow> bool" where
  "channel_errors tr =
     (\<forall>k l e. (get_bot tr k = Some e \<or> send_photo tr k l = Some e \<or> send_message tr k l = Some e)
        \<longrightarrow> is_Exception e)"

text \<open>
  The transport took a message for the \<open>k\<close>-th listing: the bot was there, and the photo
  went out or, in its place, the text.
\<close>

definition delivered :: "transport \<Rightarrow> nat \<Rightarrow> Listing \<Rightarrow> bool" where
  "delivered tr k l =
     (get_bot tr k = None \<and>
      (if truthy (image_url l) then send_photo tr k l = None \<or> send_message tr k l = None
       else send_message tr k l = None))"

text \<open>Every failure of the source is an error, an exception derived from \<open>Exception\<close>.\<close>

definition source_errors :: "(nat \<Rightarrow> string \<Rightarrow> exn + Listing list) \<Rightarrow> bool" where
  "source_errors srch = (\<forall>k kw e. srch k kw = Inl e \<longrightarrow> is_Exception e)"

text \<open>
  The result lists of the searches for the configured keywords, in order; a search that
  raises contributes the empty list.
\<close>

definition term_results ::
  "(nat \<Rightarrow> string \<Rightarrow> exn + Listing list) \<Rightarrow> nat \<Rightarrow> string list \<Rightarrow> Listing list list" where
  "term_results srch k kws =
     map (\<lambda>(i, kw). case srch i kw of Inl e \<Rightarrow> [] | Inr listings \<Rightarrow> listings) (enumerate k kws)"

text \<open>The listings of a batch whose id has no record in the storage, in the batch's order.\<close>

definition new_listings :: "ListingStorage \<Rightarrow> Listing list \<Rightarrow> Listing list" where
  "new_listings st listings = filter (\<lambda>l. \<not> has_seen (Listing.listing_id l) st) listings"

text \<open>
  The number of attempts whose \<open>notify_listing\<close> gave \<open>True\<close>; the \<open>k\<close>-th attempt
  meets the \<open>k\<close>-th outcomes of the transport.
\<close>

definition successes :: "Config \<Rightarrow> transport \<Rightarrow> Listing list \<Rightarrow> nat" where
  "successes cfg tr attempted =
     length (filter (\<lambda>(k, l). notify_listing cfg tr k l = Inr True) (enumerate 0 attempted))"

text \<open>
  An iteration in which the cycle fails: no stop request, and awaiting \<open>check_once()\<close>
  raises an error.
\<close>

definition failed :: "iteration \<Rightarrow> bool" where
  "failed it = (\<not> stop_requested it \<and> (case check_result it of Inl e \<Rightarrow> is_Exception e | Inr n \<Rightarrow> False))"

text \<open>The sleeps after the first \<open>k\<close> of a run of failures: 30, 60, 90, ... capped at 300.\<close>

definition backoffs :: "nat \<Rightarrow> int list" where
  "backoffs k = map (\<lambda>i. min (30 * int i) 300) [1..<Suc k]"

section \<open>Sample data\<close>

definition t0 :: timestamp where
  "t0 = 739000 * day_us"

definition rec_at :: "string \<Rightarrow> timestamp \<Rightarrow> bool \<Rightarrow> ListingRecord" where
  "rec_at lid t ntf =
     \<lparr>ListingRecord.listing_id = lid, title = ''Test Item'', first_seen = t, last_seen = t, notified = ntf\<rparr>"

definition item :: "string \<Rightarrow> string \<Rightarrow> Listing" where
  "item lid ttl =
     \<lparr>Listing.listing_id = lid, title = ttl, price = ''$10'', location = ''Denver, CO'',
      url = ''https://www.facebook.com/marketplace/item/'' @ lid,
      image_url = None, description = None\<rparr>"

definition flaky :: transport where
  "flaky = \<lparr>get_bot = (\<lambda>k. None),
            send_photo = (\<lambda>k l. Some (Exception ''Bad Request'')),
            send_message = (\<lambda>k l. if k = 1 then Some (Exception ''Timed out'') else None)\<rparr>"

definition cfg_ok :: Config where
  "cfg_ok = \<lparr>telegram = \<lparr>TelegramConfig.enabled = True\<rparr>,
             whatsapp = \<lparr>WhatsAppConfig.enabled = False\<rparr>,
             search = \<lparr>search_keywords = [''bike'', ''trailer'']\<rparr>,
             monitor = \<lparr>check_interval_seconds = 300, max_retries = 5,
                        retry_delay_seconds = 60, cleanup_days = 7\<rparr>\<rparr>"

definition env_day :: cycle_env where
  "env_day =
     \<lparr>scraper_search =
        (\<lambda>k kw. if k = 0 then Inr [item ''A'' ''Bike A'', item ''B'' ''Bike B'']
                 else Inr [item ''B'' ''Bike B again'', item ''C'' ''Trailer C'']),
      telegram_bot = flaky,
      mark_now = (\<lambda>k. t0 + int k),
      cleanup_now = t0 + 1000\<rparr>"

definition seen_at :: "string \<Rightarrow> string \<Rightarrow> timestamp \<Rightarrow> string \<times> ListingRecord" where
  "seen_at lid ttl t =
     (lid, \<lparr>ListingRecord.listing_id = lid, title = ttl, first_seen = t, last_seen = t,
            notified = True\<rparr>)"

definition down :: transport where
  "down = \<lparr>get_bot = (\<lambda>k. None),
           send_photo = (\<lambda>k l. Some (Exception ''Bad Request'')),
           send_message = (\<lambda>k l. Some (Exception ''Timed out''))\<rparr>"

definition env_down :: cycle_env where
  "env_down =
     \<lparr>scraper_search = (\<lambda>k kw. Inr [item ''A'' ''Bike A'']),
      telegram_bot = down,
      mark_now = (\<lambda>k. t0 + int k),
      cleanup_now = t0 + 1000\<rparr>"

definition cfg_zero :: Config where
  "cfg_zero = cfg_ok\<lparr>monitor := (monitor cfg_ok)\<lparr>cleanup_days := 0\<rparr>\<rparr>"

definition cfg_far :: Config where
  "cfg_far = cfg_ok\<lparr>monitor := (monitor cfg_ok)\<lparr>cleanup_days := 1000000000\<rparr>\<rparr>"

definition cancelled :: transport where
  "cancelled = \<lparr>get_bot = (\<lambda>k. None),
                send_photo = (\<lambda>k l. Some CancelledError),
                send_message = (\<lambda>k l. Some CancelledError)\<rparr>"

definition env_cancel :: cycle_env where
  "env_cancel =
     \<lparr>scraper_search = (\<lambda>k kw. Inr [item ''A'' ''Bike A'']),
      telegram_bot = cancelled,
      mark_now = (\<lambda>k. t0 + int k),
      cleanup_now = t0 + 1000\<rparr>"

definition batch_day :: "Listing list" where
  "batch_day = [item ''A'' ''Bike A'', item ''B'' ''Bike B'', item ''C'' ''Trailer C'']"

definition store_day :: ListingStorage where
  "store_day = [seen_at ''A'' ''Bike A'' t0, seen_at ''B'' ''Bike B'' (t0 + 1),
                seen_at ''C'' ''Trailer C'' (t0 + 2)]"

definition failure :: iteration where
  "failure = \<lparr>stop_requested = False, check_result = Inl (Exception ''Timed out'')\<rparr>"

definition cfg_invalid :: Config where
  "cfg_invalid = \<lparr>telegram = \<lparr>TelegramConfig.enabled = False\<rparr>,
                  whatsapp = \<lparr>WhatsAppConfig.enabled = False\<rparr>,
                  search = \<lparr>search_keywords = []\<rparr>,
                  monitor = \<lparr>check_interval_seconds = 300, max_retries = 3,
                             retry_delay_seconds = 60, cleanup_days = 7\<rparr>\<rparr>"

definition mon :: Monitor where
  "mon = \<lparr>running = True\<rparr>"

section \<open>Properties of the storage\<close>

lemma dict_contains_keys: "dict_contains k d \<longleftrightarrow> k \<in> set (dict_keys d)"
  by (simp add: dict_contains_def dict_keys_def map_of_eq_None_iff)

lemma map_of_setitem: "map_of (dict_setitem k v d) = (map_of d)(k \<mapsto> v)"
  by (induction d) (auto simp: fun_eq_iff)

lemma keys_setitem_present:
  "k \<in> set (dict_keys d) \<Longrightarrow> dict_keys (dict_setitem k v d) = dict_keys d"
  by (induction d) (auto simp: dict_keys_def)

lemma keys_setitem_absent:
  "k \<notin> set (dict_keys d) \<Longrightarrow> dict_keys (dict_setitem k v d) = dict_keys d @ [k]"
  by (induction d) (auto simp: dict_keys_def)

lemma length_setitem_present:
  "k \<in> set (dict_keys d) \<Longrightarrow> length (dict_setitem k v d) = length d"
  by (induction d) (auto simp: dict_keys_def)

lemma length_setitem_absent:
  "k \<notin> set (dict_keys d) \<Longrightarrow> length (dict_setitem k v d) = Suc (length d)"
  by (induction d) (auto simp: dict_keys_def)

lemma wf_setitem: "wf_store st \<Longrightarrow> wf_store (dict_setitem k v st)"
  by (cases "k \<in> set (dict_keys st)")
     (simp_all add: wf_store_def keys_setitem_present keys_setitem_absent)

lemma wf_mark_seen: "wf_store st \<Longrightarrow> wf_store (mark_seen now lid ttl ntf st)"
  by (simp add: mark_seen_def wf_setitem split: option.splits)

lemma has_seen_mark_seen: "has_seen lid (mark_seen now lid ttl ntf st)"
  by (auto simp: has_seen_def mark_seen_def dict_contains_def map_of_setitem split: option.splits)

lemma has_seen_mark_seen_other:
  "has_seen k st \<Longrightarrow> has_seen k (mark_seen now lid ttl ntf st)"
  by (auto simp: has_seen_def mark_seen_def dict_contains_def map_of_setitem split: option.splits)

lemma count_key_distinct:
  "distinct (map fst d) \<Longrightarrow> k \<in> fst ` set d \<Longrightarrow> length (filter (\<lambda>p. fst p = k) d) = 1"
proof (induction d)
  case Nil
  then show ?case by simp
next
  case (Cons p ps)
  show ?case
  proof (cases "fst p = k")
    case True
    with Cons.prems have "k \<notin> fst ` set ps"
      by simp
    then have "\<forall>q \<in> set ps. fst q \<noteq> k"
      by (metis imageI)
    then have "filter (\<lambda>q. fst q = k) ps = []"
      by (simp add: filter_empty_conv)
    with True show ?thesis by simp
  next
    case False
    with Cons show ?thesis by auto
  qed
qed

lemma del_each_skip:
  "fst p \<notin> set ks \<Longrightarrow>
   del_each ks (p # ps) = (case del_each ks ps of Inl e \<Rightarrow> Inl e | Inr ps' \<Rightarrow> Inr (p # ps'))"
  by (induction ks arbitrary: ps) (auto split: sum.splits)

lemma del_each_old:
  "distinct (map fst st) \<Longrightarrow>
   del_each (old_listings c st) st = Inr (filter (\<lambda>p. \<not> last_seen (snd p) < c) st)"
proof (induction st)
  case Nil
  then show ?case by (simp add: old_listings_def)
next
  case (Cons p ps)
  then have ih: "del_each (old_listings c ps) ps = Inr (filter (\<lambda>p. \<not> last_seen (snd p) < c) ps)"
    by simp
  show ?case
  proof (cases "last_seen (snd p) < c")
    case True
    then show ?thesis using ih by (simp add: old_listings_def)
  next
    case False
    from Cons.prems have "fst p \<notin> set (old_listings c ps)"
      by (auto simp: old_listings_def)
    then have "del_each (old_listings c ps) (p # ps) =
        (case del_each (old_listings c ps) ps of Inl e \<Rightarrow> Inl e | Inr ps' \<Rightarrow> Inr (p # ps'))"
      by (rule del_each_skip)
    with False ih show ?thesis by (simp add: old_listings_def)
  qed
qed

lemma cleanup_filter:
  assumes "wf_store st" and "cutoff_of now days = Inr c"
  shows "cleanup now days st =
           Inr (length (filter (\<lambda>p. last_seen (snd p) < c) st),
                filter (\<lambda>p. \<not> last_seen (snd p) < c) st)"
  using assms del_each_old [of st c]
  by (simp add: cleanup_def wf_store_def dict_keys_def old_listings_def)

lemma cutoff_of_value: "cutoff_of now days = Inr c \<Longrightarrow> c = now - days * day_us"
  by (auto simp: cutoff_of_def timedelta_days_def datetime_sub_def split: if_splits sum.splits)

lemma map_of_filter_snd:
  "distinct (map fst d) \<Longrightarrow> map_of d k = Some r \<Longrightarrow>
   map_of (filter (\<lambda>p. P (snd p)) d) k = (if P r then Some r else None)"
proof (induction d)
  case Nil
  then show ?case by simp
next
  case (Cons p ps)
  show ?case
  proof (cases "fst p = k")
    case True
    with Cons.prems have r: "snd p = r" and "k \<notin> fst ` set ps"
      by (cases p; auto)+
    then have "map_of (filter (\<lambda>p. P (snd p)) ps) k = None"
      by (auto simp: map_of_eq_None_iff)
    with True r show ?thesis by (cases p) auto
  next
    case False
    with Cons show ?thesis by (cases p) auto
  qed
qed

lemma get_new_listings_unseen:
  "fst (get_new_listings S st) = {i \<in> S. \<not> has_seen i st}"
  by (auto simp: get_new_listings_def has_seen_def dict_contains_keys)

text \<open>
  C2. \<open>get_new_listings\<close> returns exactly the candidate ids that have no record, those
  for which \<open>has_seen\<close> is false, and hands the storage back unchanged.
\<close>

theorem get_new_listings_exact:
  "get_new_listings S st = ({i \<in> S. \<not> has_seen i st}, st)"
  by (auto simp: get_new_listings_def has_seen_def dict_contains_keys)

theorem get_new_listings_exact_witness:
  "get_new_listings {''123'', ''789'', ''101''}
     [(''123'', rec_at ''123'' 5 True), (''456'', rec_at ''456'' 6 True)]
   = ({''789'', ''101''}, [(''123'', rec_at ''123'' 5 True), (''456'', rec_at ''456'' 6 True)])"
  unfolding get_new_listings_exact
  by (auto simp: has_seen_def dict_contains_def)

text \<open>
  C3. \<open>mark_seen\<close> is an upsert. Called twice for an id that had no record, it leaves one
  record for the id, with \<open>first_seen\<close> the clock of the first call, \<open>last_seen\<close> the
  clock of the second, and the title and \<open>notified\<close> value of the first. Called for an id
  that has a record, it changes \<open>last_seen\<close> of that record and nothing else: the keys,
  the other records, and \<open>first_seen\<close>, \<open>title\<close> and \<open>notified\<close> stay.
\<close>

theorem mark_seen_upsert:
  assumes "wf_store st"
  shows "(\<not> has_seen lid st \<longrightarrow>
            (let st2 = mark_seen t2 lid ttl2 n2 (mark_seen t1 lid ttl1 n1 st) in
               wf_store st2 \<and>
               length (filter (\<lambda>p. fst p = lid) st2) = 1 \<and>
               length st2 = length st + 1 \<and>
               map_of st2 lid =
                 Some \<lparr>ListingRecord.listing_id = lid, title = ttl1, first_seen = t1, last_seen = t2, notified = n1\<rparr>))
       \<and> (\<forall>r. map_of st lid = Some r \<longrightarrow>
            (let st1 = mark_seen t lid ttl ntf st in
               wf_store st1 \<and>
               dict_keys st1 = dict_keys st \<and>
               map_of st1 lid = Some (r\<lparr>last_seen := t\<rparr>) \<and>
               (\<forall>k. k \<noteq> lid \<longrightarrow> map_of st1 k = map_of st k)))"
proof (intro conjI impI allI)
  assume new: "\<not> has_seen lid st"
  define st1 where "st1 = mark_seen t1 lid ttl1 n1 st"
  define st2 where "st2 = mark_seen t2 lid ttl2 n2 st1"
  have absent: "lid \<notin> set (dict_keys st)"
    using new by (simp add: has_seen_def dict_contains_keys)
  have st1: "st1 = dict_setitem lid
      \<lparr>ListingRecord.listing_id = lid, title = ttl1, first_seen = t1, last_seen = t1, notified = n1\<rparr> st"
    using new by (simp add: st1_def mark_seen_def has_seen_def)
  have m1: "map_of st1 lid =
      Some \<lparr>ListingRecord.listing_id = lid, title = ttl1, first_seen = t1, last_seen = t1, notified = n1\<rparr>"
    by (simp add: st1 map_of_setitem)
  have k1: "dict_keys st1 = dict_keys st @ [lid]"
    by (simp add: st1 keys_setitem_absent absent)
  have in1: "lid \<in> set (dict_keys st1)"
    by (simp add: k1)
  have st2: "st2 = dict_setitem lid
      \<lparr>ListingRecord.listing_id = lid, title = ttl1, first_seen = t1, last_seen = t2, notified = n1\<rparr> st1"
    using m1 in1 by (simp add: st2_def mark_seen_def dict_contains_keys)
  have wf2: "wf_store st2"
    using assms by (simp add: st2_def st1_def wf_mark_seen)
  have k2: "dict_keys st2 = dict_keys st @ [lid]"
    by (simp add: st2 keys_setitem_present in1 k1)
  have "lid \<in> fst ` set st2"
    using k2 by (metis dict_keys_def in_set_conv_decomp list.set_map)
  with wf2 have one: "length (filter (\<lambda>p. fst p = lid) st2) = 1"
    by (simp add: wf_store_def dict_keys_def count_key_distinct)
  have "length st1 = Suc (length st)"
    by (simp add: st1 length_setitem_absent absent)
  moreover have "length st2 = length st1"
    unfolding st2 using in1 by (rule length_setitem_present)
  ultimately have len: "length st2 = length st + 1"
    by simp
  have m2: "map_of st2 lid =
      Some \<lparr>ListingRecord.listing_id = lid, title = ttl1, first_seen = t1, last_seen = t2, notified = n1\<rparr>"
    by (simp add: st2 map_of_setitem)
  show "let st2 = mark_seen t2 lid ttl2 n2 (mark_seen t1 lid ttl1 n1 st) in
               wf_store st2 \<and>
               length (filter (\<lambda>p. fst p = lid) st2) = 1 \<and>
               length st2 = length st + 1 \<and>
               map_of st2 lid =
                 Some \<lparr>ListingRecord.listing_id = lid, title = ttl1, first_seen = t1, last_seen = t2, notified = n1\<rparr>"
    using wf2 one len m2 by (simp add: st2_def st1_def)
next
  fix r
  assume r: "map_of st lid = Some r"
  then have present: "lid \<in> set (dict_keys st)"
    by (metis dict_contains_def dict_contains_keys option.distinct(1))
  have eq: "mark_seen t lid ttl ntf st = dict_setitem lid (r\<lparr>last_seen := t\<rparr>) st"
    using r present by (simp add: mark_seen_def dict_contains_keys)
  show "let st1 = mark_seen t lid ttl ntf st in
               wf_store st1 \<and>
               dict_keys st1 = dict_keys st \<and>
               map_of st1 lid = Some (r\<lparr>last_seen := t\<rparr>) \<and>
               (\<forall>k. k \<noteq> lid \<longrightarrow> map_of st1 k = map_of st k)"
    using assms present by (simp add: eq wf_setitem keys_setitem_present map_of_setitem)
qed

theorem mark_seen_upsert_witness:
  "wf_store [(''456'', rec_at ''456'' 6 True)]
   \<and> \<not> has_seen ''123'' [(''456'', rec_at ''456'' 6 True)]
   \<and> mark_seen 20 ''123'' ''Second title'' False
        (mark_seen 10 ''123'' ''First title'' True [(''456'', rec_at ''456'' 6 True)])
      = [(''456'', rec_at ''456'' 6 True),
         (''123'', \<lparr>ListingRecord.listing_id = ''123'', title = ''First title'', first_seen = 10,
                    last_seen = 20, notified = True\<rparr>)]
   \<and> map_of [(''456'', rec_at ''456'' 6 True)] ''456'' = Some (rec_at ''456'' 6 True)
   \<and> mark_seen 30 ''456'' ''Other title'' False [(''456'', rec_at ''456'' 6 True)]
      = [(''456'', (rec_at ''456'' 6 True)\<lparr>last_seen := 30\<rparr>)]"
  using mark_seen_upsert [of "[(''456'', rec_at ''456'' 6 True)]" "''123''" 20 "''Second title''"
      False 10 "''First title''" True 30 "''Other title''" False]
  by (simp add: wf_store_def dict_keys_def has_seen_def dict_contains_def mark_seen_def)

lemma cleanup_within_range:
  assumes "wf_store st" and "cutoff_of now days = Inr c"
  shows "c = now - days * day_us
       \<and> cleanup now days st =
           Inr (length (filter (\<lambda>p. last_seen (snd p) < c) st),
                filter (\<lambda>p. \<not> last_seen (snd p) < c) st)
       \<and> (\<forall>n st' k r. cleanup now days st = Inr (n, st') \<longrightarrow> map_of st k = Some r \<longrightarrow>
             (has_seen k st' \<longleftrightarrow> c \<le> last_seen r))
       \<and> cleanup now days [] = Inr (0, [])"
proof (intro conjI allI impI)
  show "c = now - days * day_us"
    using assms(2) by (rule cutoff_of_value)
  show eq: "cleanup now days st =
           Inr (length (filter (\<lambda>p. last_seen (snd p) < c) st),
                filter (\<lambda>p. \<not> last_seen (snd p) < c) st)"
    using assms by (rule cleanup_filter)
  show "cleanup now days [] = Inr (0, [])"
    using assms(2) by (simp add: cleanup_def old_listings_def)
  fix n st' k r
  assume "cleanup now days st = Inr (n, st')" and r: "map_of st k = Some r"
  with eq have st': "st' = filter (\<lambda>p. \<not> last_seen (snd p) < c) st"
    by simp
  from assms(1) have "distinct (map fst st)"
    by (simp add: wf_store_def dict_keys_def)
  from map_of_filter_snd [OF this r, of "\<lambda>x. \<not> last_seen x < c"]
  show "has_seen k st' \<longleftrightarrow> c \<le> last_seen r"
    by (simp add: st' has_seen_def dict_contains_def)
qed

lemma cleanup_overflow:
  assumes "cutoff_of now days = Inl e"
  shows "cleanup now days st = Inl e \<and> (\<exists>msg. e = OverflowError msg)"
  using assms
  by (auto simp: cleanup_def cutoff_of_def timedelta_days_def datetime_sub_def
      split: sum.splits if_splits)

text \<open>
  C4, amended. When the cutoff \<open>now - days\<close> is a date the \<open>datetime\<close> type can hold,
  \<open>cleanup\<close> removes exactly the records whose \<open>last_seen\<close> is strictly before it and
  returns their number. A record whose \<open>last_seen\<close> is the cutoff stays, one microsecond
  older goes, and the \<open>notified\<close> flag plays no part. On the empty storage the result is
  0 and the empty storage. When the cutoff is not such a date, \<open>cleanup\<close> raises
  \<open>OverflowError\<close>.
\<close>

theorem cleanup_exact:
  assumes "wf_store st"
  shows "(\<forall>c. cutoff_of now days = Inr c \<longrightarrow>
            c = now - days * day_us
            \<and> cleanup now days st =
                Inr (length (filter (\<lambda>p. last_seen (snd p) < c) st),
                     filter (\<lambda>p. \<not> last_seen (snd p) < c) st)
            \<and> (\<forall>n st' k r. cleanup now days st = Inr (n, st') \<longrightarrow> map_of st k = Some r \<longrightarrow>
                  (has_seen k st' \<longleftrightarrow> c \<le> last_seen r))
            \<and> cleanup now days [] = Inr (0, []))
       \<and> (\<forall>e. cutoff_of now days = Inl e \<longrightarrow>
            cleanup now days st = Inl e \<and> (\<exists>msg. e = OverflowError msg))"
  using cleanup_within_range [OF assms, of now days] cleanup_overflow [of now days _ st]
  by blast

theorem cleanup_exact_witness:
  "wf_store [(''at'', rec_at ''at'' (t0 - 7 * day_us) True),
             (''older'', rec_at ''older'' (t0 - 7 * day_us - 1) True),
             (''unnotified'', rec_at ''unnotified'' t0 False)]
   \<and> cutoff_of t0 7 = Inr (t0 - 7 * day_us)
   \<and> cleanup t0 7 [(''at'', rec_at ''at'' (t0 - 7 * day_us) True),
                   (''older'', rec_at ''older'' (t0 - 7 * day_us - 1) True),
                   (''unnotified'', rec_at ''unnotified'' t0 False)]
      = Inr (1, [(''at'', rec_at ''at'' (t0 - 7 * day_us) True),
                 (''unnotified'', rec_at ''unnotified'' t0 False)])"
proof -
  have wf: "wf_store [(''at'', rec_at ''at'' (t0 - 7 * day_us) True),
             (''older'', rec_at ''older'' (t0 - 7 * day_us - 1) True),
             (''unnotified'', rec_at ''unnotified'' t0 False)]"
    by (simp add: wf_store_def dict_keys_def)
  have c: "cutoff_of t0 7 = Inr (t0 - 7 * day_us)"
    by (simp add: cutoff_of_def timedelta_days_def datetime_sub_def datetime_max_def
        t0_def day_us_def)
  show ?thesis
    using wf c cleanup_exact [OF wf, of t0 7] by (simp add: rec_at_def day_us_def)
qed

text \<open>
  C4 as stated fails when the retention exceeds the age of the calendar: with a retention
  of 1000000 days the cutoff would lie before year 1, the subtraction raises
  \<open>OverflowError\<close>, and \<open>cleanup\<close> on the empty storage does not return 0.
\<close>

theorem cleanup_exact_counterexample:
  "cleanup t0 1000000 [] = Inl (OverflowError ''date value out of range'')"
  by (simp add: cleanup_def cutoff_of_def timedelta_days_def datetime_sub_def datetime_max_def
      t0_def day_us_def)

section \<open>Properties of the notifications\<close>

lemma try_except_Inl:
  "try_except body h = Inl e \<Longrightarrow>
     (body = Inl e \<and> \<not> is_Exception e) \<or> (\<exists>e'. body = Inl e' \<and> is_Exception e' \<and> h e' = Inl e)"
  by (auto simp: try_except_def split: sum.splits if_splits)

lemma send_listing_raises: "send_listing tr k l = Inl e \<Longrightarrow> \<not> is_Exception e"
  unfolding send_listing_def by (drule try_except_Inl) auto

lemma notify_listing_raises: "notify_listing cfg tr k l = Inl e \<Longrightarrow> \<not> is_Exception e"
  by (auto simp: notify_listing_def dest: send_listing_raises split: if_splits)

lemma notify_loop_raises:
  "snd (notify_loop cfg tr k ls c) = Inl e \<Longrightarrow> \<not> is_Exception e"
proof (induction ls arbitrary: k c)
  case Nil
  then show ?case by simp
next
  case (Cons l ls)
  show ?case
  proof (cases "notify_listing cfg tr k l")
    case (Inl e')
    with Cons.prems show ?thesis by (auto dest: notify_listing_raises)
  next
    case (Inr ok)
    with Cons.prems have "snd (notify_loop cfg tr (Suc k) ls (if ok then c + 1 else c)) = Inl e"
      by (cases ok) (auto split: prod.splits)
    then show ?thesis by (rule Cons.IH)
  qed
qed

lemma send_listing_delivered:
  assumes "channel_errors tr"
  shows "send_listing tr k l = Inr (delivered tr k l)"
proof -
  have g: "get_bot tr k = Some e \<Longrightarrow> is_Exception e" for e
    using assms unfolding channel_errors_def by blast
  have p: "send_photo tr k l = Some e \<Longrightarrow> is_Exception e" for e
    using assms unfolding channel_errors_def by blast
  have m: "send_message tr k l = Some e \<Longrightarrow> is_Exception e" for e
    using assms unfolding channel_errors_def by blast
  show ?thesis
    by (auto simp: send_listing_def delivered_def try_except_def call_def
        split: option.splits dest: g p m)
qed

lemma notify_loop_count:
  assumes "channel_errors tr"
  shows "notify_loop cfg tr k ls c =
     (ls, Inr (c + length (filter (\<lambda>(i, l). notify_listing cfg tr i l = Inr True) (enumerate k ls))))"
proof (induction ls arbitrary: k c)
  case Nil
  then show ?case by simp
next
  case (Cons l ls)
  have "notify_listing cfg tr k l = Inr (TelegramConfig.enabled (telegram cfg) \<and> delivered tr k l)"
    by (simp add: notify_listing_def send_listing_delivered [OF assms])
  then show ?case by (simp add: Cons.IH)
qed

text \<open>
  C9. \<open>notify_listings\<close> never lets an error, an exception derived from
  \<open>Exception\<close>, leave it. When the failures of the transport are such errors, each is
  turned into a \<open>False\<close> result of \<open>notify_listing\<close>, every listing of the batch is
  attempted whatever happened to the ones before it, and the result is the number of
  listings whose own \<open>notify_listing\<close> gave \<open>True\<close>.
\<close>

theorem notify_listings_count:
  "(\<forall>e. snd (notify_listings cfg tr ls) = Inl e \<longrightarrow> \<not> is_Exception e)
   \<and> (channel_errors tr \<longrightarrow>
        (\<forall>k l. notify_listing cfg tr k l =
                 Inr (TelegramConfig.enabled (telegram cfg) \<and> delivered tr k l))
        \<and> notify_listings cfg tr ls =
            (ls, Inr (length (filter (\<lambda>(k, l). notify_listing cfg tr k l = Inr True)
                                (enumerate 0 ls)))))"
  by (auto simp: notify_listings_def notify_loop_count notify_listing_def send_listing_delivered
      dest: notify_loop_raises)

theorem notify_listings_count_witness:
  "channel_errors flaky
   \<and> notify_listing cfg_ok flaky 1 (item ''B'' ''Bike B'') = Inr False
   \<and> notify_listings cfg_ok flaky [item ''A'' ''Bike A'', item ''B'' ''Bike B'', item ''C'' ''Bike C'']
      = ([item ''A'' ''Bike A'', item ''B'' ''Bike B'', item ''C'' ''Bike C''], Inr 2)"
proof -
  let ?ls = "[item ''A'' ''Bike A'', item ''B'' ''Bike B'', item ''C'' ''Bike C'']"
  have ce: "channel_errors flaky"
    by (auto simp: channel_errors_def flaky_def)
  from notify_listings_count [of cfg_ok flaky ?ls] ce
  have nl: "\<And>k l. notify_listing cfg_ok flaky k l =
                 Inr (TelegramConfig.enabled (telegram cfg_ok) \<and> delivered flaky k l)"
    and cnt: "notify_listings cfg_ok flaky ?ls =
            (?ls, Inr (length (filter (\<lambda>(k, l). notify_listing cfg_ok flaky k l = Inr True)
                                (enumerate 0 ?ls))))"
    by blast+
  have n0: "notify_listing cfg_ok flaky 0 (item ''A'' ''Bike A'') = Inr True"
    unfolding nl by (simp add: cfg_ok_def delivered_def flaky_def item_def truthy_def)
  have n1: "notify_listing cfg_ok flaky (Suc 0) (item ''B'' ''Bike B'') = Inr False"
    unfolding nl by (simp add: cfg_ok_def delivered_def flaky_def item_def truthy_def)
  have n2: "notify_listing cfg_ok flaky (Suc (Suc 0)) (item ''C'' ''Bike C'') = Inr True"
    unfolding nl by (simp add: cfg_ok_def delivered_def flaky_def item_def truthy_def)
  show ?thesis
    unfolding cnt using ce n1 by (simp add: n0 n2)
qed

section \<open>Properties of the check cycle\<close>

lemma search_loop_raises:
  "search_loop srch k kws acc = Inl e \<Longrightarrow> \<not> is_Exception e"
proof (induction kws arbitrary: k acc)
  case Nil
  then show ?case by simp
next
  case (Cons kw kws)
  show ?case
  proof (cases "try_except (case srch k kw of Inl e \<Rightarrow> Inl e | Inr ls \<Rightarrow> Inr (acc @ ls))
                  (\<lambda>e. Inr acc)")
    case (Inl e')
    with Cons.prems have "e' = e" by simp
    with Inl show ?thesis by (auto dest: try_except_Inl)
  next
    case (Inr acc')
    with Cons.prems have "search_loop srch (Suc k) kws acc' = Inl e" by simp
    then show ?thesis by (rule Cons.IH)
  qed
qed

lemma search_loop_concat:
  assumes "source_errors srch"
  shows "search_loop srch k kws acc = Inr (acc @ concat (term_results srch k kws))"
proof (induction kws arbitrary: k acc)
  case Nil
  then show ?case by (simp add: term_results_def)
next
  case (Cons kw kws)
  show ?case
  proof (cases "srch k kw")
    case (Inl e)
    with assms have "is_Exception e" by (auto simp: source_errors_def)
    with Inl show ?thesis
      using Cons.IH [of "Suc k" acc] by (simp add: try_except_def term_results_def)
  next
    case (Inr ls)
    then show ?thesis
      using Cons.IH [of "Suc k" "acc @ ls"] by (simp add: try_except_def term_results_def)
  qed
qed

lemma unique_loop_ids:
  "set (map Listing.listing_id (unique_loop ls seen acc)) =
     set (map Listing.listing_id acc) \<union> (set (map Listing.listing_id ls) - seen)"
  by (induction ls arbitrary: seen acc) auto

lemma unique_loop_distinct:
  "distinct (map Listing.listing_id acc) \<Longrightarrow> set (map Listing.listing_id acc) \<subseteq> seen \<Longrightarrow>
   distinct (map Listing.listing_id (unique_loop ls seen acc))"
proof (induction ls arbitrary: seen acc)
  case Nil
  then show ?case by simp
next
  case (Cons x xs)
  show ?case
  proof (cases "Listing.listing_id x \<in> seen")
    case True
    with Cons show ?thesis by simp
  next
    case False
    with Cons.prems have "distinct (map Listing.listing_id (acc @ [x]))"
      and "set (map Listing.listing_id (acc @ [x])) \<subseteq> insert (Listing.listing_id x) seen"
      by auto
    then have "distinct (map Listing.listing_id
        (unique_loop xs (insert (Listing.listing_id x) seen) (acc @ [x])))"
      by (rule Cons.IH)
    with False show ?thesis by simp
  qed
qed

lemma unique_loop_first:
  "l \<in> set (unique_loop ls seen acc) \<Longrightarrow>
   l \<in> set acc \<or>
   (Listing.listing_id l \<notin> seen \<and>
    find (\<lambda>x. Listing.listing_id x = Listing.listing_id l) ls = Some l)"
proof (induction ls arbitrary: seen acc)
  case Nil
  then show ?case by simp
next
  case (Cons x xs)
  show ?case
  proof (cases "Listing.listing_id x \<in> seen")
    case True
    with Cons.prems have "l \<in> set (unique_loop xs seen acc)" by simp
    from Cons.IH [OF this] True show ?thesis by auto
  next
    case False
    with Cons.prems have
      "l \<in> set (unique_loop xs (insert (Listing.listing_id x) seen) (acc @ [x]))" by simp
    from Cons.IH [OF this] False show ?thesis by auto
  qed
qed

lemma notify_loop_result:
  "notify_loop cfg tr k ls c = (att, Inr n) \<Longrightarrow>
   att = ls \<and>
   n = c + length (filter (\<lambda>(i, l). notify_listing cfg tr i l = Inr True) (enumerate k ls))"
proof (induction ls arbitrary: k c att)
  case Nil
  then show ?case by simp
next
  case (Cons l ls)
  from Cons.prems obtain ok where ok: "notify_listing cfg tr k l = Inr ok"
    by (cases "notify_listing cfg tr k l") auto
  with Cons.prems obtain att' where
    rest: "notify_loop cfg tr (Suc k) ls (if ok then c + 1 else c) = (att', Inr n)"
    and att: "att = l # att'"
    by (auto split: prod.splits)
  from Cons.IH [OF rest] ok att show ?case by (cases ok) auto
qed

lemma notify_loop_prefix:
  "\<exists>rest. ls = fst (notify_loop cfg tr k ls c) @ rest"
proof (induction ls arbitrary: k c)
  case Nil
  then show ?case by simp
next
  case (Cons l ls)
  show ?case
  proof (cases "notify_listing cfg tr k l")
    case (Inl e)
    then show ?thesis by simp
  next
    case (Inr ok)
    from Cons.IH [of "Suc k" "if ok then c + 1 else c"] Inr
    show ?thesis by (auto split: prod.splits)
  qed
qed

lemma wf_mark_all: "wf_store st \<Longrightarrow> wf_store (mark_all clock k ls st)"
  by (induction ls arbitrary: k st) (simp_all add: wf_mark_seen)

lemma has_seen_mark_all_old: "has_seen lid st \<Longrightarrow> has_seen lid (mark_all clock k ls st)"
  by (induction ls arbitrary: k st) (simp_all add: has_seen_mark_seen_other)

lemma has_seen_mark_all_new:
  "l \<in> set ls \<Longrightarrow> has_seen (Listing.listing_id l) (mark_all clock k ls st)"
  by (induction ls arbitrary: k st) (auto simp: has_seen_mark_all_old has_seen_mark_seen)

lemma mark_seen_record:
  assumes "\<forall>r. map_of st lid = Some r \<longrightarrow> notified r \<and> (\<exists>i. i < k \<and> last_seen r = clock i)"
    and "map_of (mark_seen (clock k) lid' ttl True st) lid = Some r"
  shows "notified r \<and> (\<exists>i. i < Suc k \<and> last_seen r = clock i)"
proof (cases "lid' = lid")
  case False
  with assms(2) have "map_of st lid = Some r"
    by (auto simp: mark_seen_def map_of_setitem split: if_splits option.splits)
  with assms(1) show ?thesis by (auto intro: less_SucI)
next
  case True
  show ?thesis
  proof (cases "map_of st lid")
    case None
    with True assms(2) show ?thesis
      by (auto simp: mark_seen_def map_of_setitem dict_contains_def)
  next
    case (Some r0)
    with True assms(2) have "r = r0\<lparr>last_seen := clock k\<rparr>"
      by (auto simp: mark_seen_def map_of_setitem dict_contains_def)
    moreover from Some assms(1) have "notified r0" by simp
    ultimately show ?thesis by auto
  qed
qed

lemma mark_all_record:
  assumes "\<forall>r. map_of st lid = Some r \<longrightarrow> notified r \<and> (\<exists>i. i < k \<and> last_seen r = clock i)"
    and "map_of (mark_all clock k ls st) lid = Some r"
  shows "notified r \<and> (\<exists>i. i < k + length ls \<and> last_seen r = clock i)"
  using assms
proof (induction ls arbitrary: k st)
  case Nil
  then show ?case by simp
next
  case (Cons l ls)
  let ?st = "mark_seen (clock k) (Listing.listing_id l) (Listing.title l) True st"
  have "\<forall>r. map_of ?st lid = Some r \<longrightarrow> notified r \<and> (\<exists>i. i < Suc k \<and> last_seen r = clock i)"
    using mark_seen_record [OF Cons.prems(1)] by blast
  moreover from Cons.prems(2) have "map_of (mark_all clock (Suc k) ls ?st) lid = Some r"
    by simp
  ultimately have "notified r \<and> (\<exists>i. i < Suc k + length ls \<and> last_seen r = clock i)"
    by (rule Cons.IH)
  then show ?case by simp
qed

lemma new_ids_filter:
  "filter (\<lambda>l. Listing.listing_id l \<in> fst (get_new_listings (Listing.listing_id ` set ls) st)) ls
   = new_listings st ls"
  by (auto simp: new_listings_def get_new_listings_unseen intro: filter_cong)

lemma new_ids_empty:
  "fst (get_new_listings (Listing.listing_id ` set ls) st) = {} \<longleftrightarrow> new_listings st ls = []"
  by (auto simp: new_listings_def get_new_listings_unseen filter_empty_conv)

lemma process_listings_Inr:
  assumes "process_listings cfg env ls st = (Inr n, att, st')"
  shows "att = new_listings st ls \<and> st' = mark_all (mark_now env) 0 (new_listings st ls) st
         \<and> n = successes cfg (telegram_bot env) att"
proof (cases "new_listings st ls = []")
  case True
  then have "ls = [] \<or> fst (get_new_listings (Listing.listing_id ` set ls) st) = {}"
    by (simp add: new_ids_empty)
  with assms True show ?thesis
    by (auto simp: process_listings_def successes_def get_new_listings_def split: if_splits)
next
  case False
  then have ne: "ls \<noteq> []" and ids: "fst (get_new_listings (Listing.listing_id ` set ls) st) \<noteq> {}"
    by (auto simp: new_ids_empty new_listings_def)
  have snd_eq: "snd (get_new_listings (Listing.listing_id ` set ls) st) = st"
    by (simp add: get_new_listings_def)
  obtain ids' where g: "get_new_listings (Listing.listing_id ` set ls) st = (ids', st)"
    by (simp add: get_new_listings_def)
  with ids have ids': "ids' \<noteq> {}" by simp
  from g have f: "filter (\<lambda>l. Listing.listing_id l \<in> ids') ls = new_listings st ls"
    using new_ids_filter [of ls st] by simp
  from assms ne g ids' f
  have nl: "notify_listings cfg (telegram_bot env) (new_listings st ls) = (att, Inr n)"
    and st': "st' = mark_all (mark_now env) 0 (new_listings st ls) st"
    by (auto simp: process_listings_def split: prod.splits sum.splits)
  have "att = new_listings st ls \<and> n = successes cfg (telegram_bot env) (new_listings st ls)"
    using notify_loop_result [OF nl [unfolded notify_listings_def]] by (simp add: successes_def)
  with st' show ?thesis by simp
qed

lemma process_listings_Inl:
  assumes "process_listings cfg env ls st = (Inl e, att, st')"
  shows "\<not> is_Exception e \<and> st' = st \<and> (\<exists>rest. new_listings st ls = att @ rest)"
proof -
  obtain ids' where g: "get_new_listings (Listing.listing_id ` set ls) st = (ids', st)"
    by (simp add: get_new_listings_def)
  then have f: "filter (\<lambda>l. Listing.listing_id l \<in> ids') ls = new_listings st ls"
    using new_ids_filter [of ls st] by simp
  from assms g f
  have nl: "notify_listings cfg (telegram_bot env) (new_listings st ls) = (att, Inl e)" and "st' = st"
    by (auto simp: process_listings_def split: prod.splits sum.splits if_splits)
  from nl have "\<not> is_Exception e"
    using notify_loop_raises [of cfg "telegram_bot env" 0 "new_listings st ls" 0 e]
    by (simp add: notify_listings_def)
  moreover from nl have "\<exists>rest. new_listings st ls = att @ rest"
    using notify_loop_prefix [of "new_listings st ls" cfg "telegram_bot env" 0 0]
    by (simp add: notify_listings_def)
  ultimately show ?thesis using \<open>st' = st\<close> by simp
qed

lemma process_listings_attempted:
  assumes "process_listings cfg env ls st = (r, att, st')"
  shows "\<exists>rest. new_listings st ls = att @ rest"
proof (cases r)
  case (Inl e)
  with assms show ?thesis by (auto dest: process_listings_Inl)
next
  case (Inr n)
  with assms show ?thesis by (auto dest: process_listings_Inr)
qed

lemma count_distinct_map:
  "distinct (map f xs) \<Longrightarrow> x \<in> set xs \<Longrightarrow> length (filter (\<lambda>a. f a = f x) xs) = 1"
proof (induction xs)
  case Nil
  then show ?case by simp
next
  case (Cons y ys)
  show ?case
  proof (cases "f y = f x")
    case True
    with Cons.prems have "f x \<notin> f ` set ys"
      by simp
    then have "\<forall>a \<in> set ys. f a \<noteq> f x"
      by (metis imageI)
    then have "filter (\<lambda>a. f a = f x) ys = []"
      by (simp add: filter_empty_conv)
    with True show ?thesis by simp
  next
    case False
    with Cons show ?thesis by auto
  qed
qed

lemma dict_delitem_raises: "dict_delitem k d = Inl e \<Longrightarrow> is_Exception e"
  by (induction d) (auto split: if_splits sum.splits)

lemma del_each_raises: "del_each ks st = Inl e \<Longrightarrow> is_Exception e"
  by (induction ks arbitrary: st) (auto split: sum.splits dest: dict_delitem_raises)

lemma cleanup_raises: "cleanup now days st = Inl e \<Longrightarrow> is_Exception e"
  by (auto simp: cleanup_def cutoff_of_def timedelta_days_def datetime_sub_def
      split: sum.splits if_splits dest: del_each_raises)

lemma search_all_keywords_raises: "search_all_keywords cfg env = Inl e \<Longrightarrow> \<not> is_Exception e"
  by (auto simp: search_all_keywords_def split: sum.splits dest: search_loop_raises)

lemma check_body_cases:
  assumes "check_body cfg env st = (r, att, st')"
  obtains
    (search_raised) e where "search_all_keywords cfg env = Inl e" "r = Inl e" "att = []" "st' = st"
  | (dispatch_raised) batch e where "search_all_keywords cfg env = Inr batch"
      "process_listings cfg env batch st = (Inl e, att, st')" "r = Inl e"
  | (cleanup_raised) batch n e where "search_all_keywords cfg env = Inr batch"
      "process_listings cfg env batch st = (Inr n, att, st')"
      "cleanup (cleanup_now env) (cleanup_days (monitor cfg)) st' = Inl e" "r = Inl e"
  | (completed) batch n st1 removed where "search_all_keywords cfg env = Inr batch"
      "process_listings cfg env batch st = (Inr n, att, st1)"
      "cleanup (cleanup_now env) (cleanup_days (monitor cfg)) st1 = Inr (removed, st')" "r = Inr n"
  using assms unfolding check_body_def
  by (auto split: sum.splits prod.splits)

lemma check_once_cases:
  assumes "check_once cfg env st = (Inr n, att, st')"
  obtains
    (cleanup_raised) batch m e where "search_all_keywords cfg env = Inr batch"
      "process_listings cfg env batch st = (Inr m, att, st')"
      "cleanup (cleanup_now env) (cleanup_days (monitor cfg)) st' = Inl e" "n = 0"
  | (completed) batch st1 removed where "search_all_keywords cfg env = Inr batch"
      "process_listings cfg env batch st = (Inr n, att, st1)"
      "cleanup (cleanup_now env) (cleanup_days (monitor cfg)) st1 = Inr (removed, st')"
proof -
  obtain r where body: "check_body cfg env st = (r, att, st')"
    and r: "r = Inr n \<or> (\<exists>e. r = Inl e \<and> is_Exception e \<and> n = 0)"
    using assms unfolding check_once_def
    by (auto split: sum.splits prod.splits if_splits)
  from body show thesis
  proof (cases rule: check_body_cases)
    case (search_raised e)
    with r show ?thesis by (auto dest: search_all_keywords_raises)
  next
    case (dispatch_raised batch e)
    with r show ?thesis by (auto dest: process_listings_Inl)
  next
    case (cleanup_raised batch m e)
    with r show ?thesis by (auto intro: that(1))
  next
    case (completed batch m st1 removed)
    with r show ?thesis by (auto intro: that(2))
  qed
qed

lemma check_once_attempted:
  assumes "check_once cfg env st = (r, att, st')"
  shows "att = [] \<or> (\<exists>batch rest. search_all_keywords cfg env = Inr batch
                       \<and> new_listings st batch = att @ rest)"
proof -
  obtain r0 where body: "check_body cfg env st = (r0, att, st')"
    using assms unfolding check_once_def
    by (auto split: sum.splits prod.splits if_splits)
  then show ?thesis
  proof (cases rule: check_body_cases)
    case (search_raised e)
    then show ?thesis by simp
  next
    case (dispatch_raised batch e)
    then show ?thesis by (auto dest: process_listings_attempted)
  next
    case (cleanup_raised batch n e)
    then show ?thesis by (auto dest: process_listings_attempted)
  next
    case (completed batch n st1 removed)
    then show ?thesis by (auto dest: process_listings_attempted)
  qed
qed

lemma check_once_attempted_new:
  assumes "check_once cfg env st = (r, att, st')" and "a \<in> set att"
  shows "\<not> has_seen (Listing.listing_id a) st"
proof -
  from check_once_attempted [OF assms(1)] assms(2)
  obtain batch rest where "new_listings st batch = att @ rest"
    by auto
  with assms(2) have "a \<in> set (new_listings st batch)"
    by simp
  then show ?thesis by (simp add: new_listings_def)
qed

lemma process_listings_returns:
  assumes "channel_errors (telegram_bot env)"
  shows "process_listings cfg env ls st \<noteq> (Inl e, att, st')"
  using assms
  by (auto simp: process_listings_def notify_listings_def notify_loop_count
      split: prod.splits sum.splits if_splits)

lemma check_once_returns:
  assumes "source_errors (scraper_search env)" and "channel_errors (telegram_bot env)"
  shows "\<exists>n. fst (check_once cfg env st) = Inr n"
proof -
  obtain r att st' where body: "check_body cfg env st = (r, att, st')"
    by (cases "check_body cfg env st") auto
  have "\<exists>n. r = Inr n \<or> (\<exists>e. r = Inl e \<and> is_Exception e)"
    using body
  proof (cases rule: check_body_cases)
    case (search_raised e)
    with assms show ?thesis
      by (simp add: search_all_keywords_def search_loop_concat)
  next
    case (dispatch_raised batch e)
    with assms show ?thesis
      by (simp add: process_listings_returns)
  next
    case (cleanup_raised batch n e)
    then show ?thesis by (auto dest: cleanup_raises)
  next
    case (completed batch n st1 removed)
    then show ?thesis by simp
  qed
  with body show ?thesis
    by (auto simp: check_once_def)
qed

text \<open>
  C10, amended. \<open>check_once\<close> never lets an error, an exception derived from
  \<open>Exception\<close>, reach its caller, whatever the source, the transport and the storage do.
  When the body of its \<open>try\<close> raises such an error it returns 0; when the body returns,
  it returns the body's count, the number of attempted listings whose \<open>notify_listing\<close>
  gave \<open>True\<close>. An exception that does not derive from \<open>Exception\<close> passes the handler
  and reaches the caller. When the failures of the source and of the transport are errors,
  \<open>check_once\<close> returns a number.
\<close>

theorem check_once_total:
  "(\<forall>e. fst (check_once cfg env st) = Inl e \<longrightarrow> \<not> is_Exception e)
   \<and> (\<forall>e. fst (check_body cfg env st) = Inl e \<longrightarrow> is_Exception e \<longrightarrow>
          fst (check_once cfg env st) = Inr 0)
   \<and> (\<forall>e. fst (check_body cfg env st) = Inl e \<longrightarrow> \<not> is_Exception e \<longrightarrow>
          fst (check_once cfg env st) = Inl e)
   \<and> (\<forall>n. fst (check_body cfg env st) = Inr n \<longrightarrow>
          fst (check_once cfg env st) = Inr n
          \<and> n = successes cfg (telegram_bot env) (fst (snd (check_once cfg env st))))
   \<and> (source_errors (scraper_search env) \<and> channel_errors (telegram_bot env) \<longrightarrow>
          (\<exists>n. fst (check_once cfg env st) = Inr n))"
proof -
  have never: "\<not> is_Exception e" if "fst (check_once cfg env st) = Inl e" for e
    using that by (auto simp: check_once_def split: prod.splits sum.splits if_splits)
  have zero: "fst (check_once cfg env st) = Inr 0"
    if "fst (check_body cfg env st) = Inl e" and "is_Exception e" for e
    using that by (cases "check_body cfg env st") (auto simp: check_once_def)
  have pass: "fst (check_once cfg env st) = Inl e"
    if "fst (check_body cfg env st) = Inl e" and "\<not> is_Exception e" for e
    using that by (cases "check_body cfg env st") (auto simp: check_once_def)
  have count: "fst (check_once cfg env st) = Inr n
          \<and> n = successes cfg (telegram_bot env) (fst (snd (check_once cfg env st)))"
    if b: "fst (check_body cfg env st) = Inr n" for n
  proof -
    from b obtain att st' where body: "check_body cfg env st = (Inr n, att, st')"
      by (cases "check_body cfg env st") auto
    then have once: "check_once cfg env st = (Inr n, att, st')"
      by (simp add: check_once_def)
    from body have "n = successes cfg (telegram_bot env) att"
      by (cases rule: check_body_cases) (auto dest: process_listings_Inr)
    with once show ?thesis
      by simp
  qed
  have total: "\<exists>n. fst (check_once cfg env st) = Inr n"
    if "source_errors (scraper_search env) \<and> channel_errors (telegram_bot env)"
    using that by (simp add: check_once_returns)
  from never zero pass count total show ?thesis
    by blast
qed

lemma search_env_day:
  "search_all_keywords cfg_ok env_day =
     Inr [item ''A'' ''Bike A'', item ''B'' ''Bike B'', item ''C'' ''Trailer C'']"
  by (simp add: search_all_keywords_def cfg_ok_def env_day_def try_except_def item_def)

lemma notify_env_day:
  "notify_listings cfg flaky [item ''A'' ''Bike A'', item ''B'' ''Bike B'', item ''C'' ''Trailer C'']
   = ([item ''A'' ''Bike A'', item ''B'' ''Bike B'', item ''C'' ''Trailer C''],
      Inr (if TelegramConfig.enabled (telegram cfg) then 2 else 0))"
  by (simp add: notify_listings_def notify_listing_def send_listing_def try_except_def call_def
      flaky_def item_def truthy_def)

lemma process_env_day:
  "process_listings cfg_ok env_day
     [item ''A'' ''Bike A'', item ''B'' ''Bike B'', item ''C'' ''Trailer C''] []
   = (Inr 2, [item ''A'' ''Bike A'', item ''B'' ''Bike B'', item ''C'' ''Trailer C''],
      [seen_at ''A'' ''Bike A'' t0, seen_at ''B'' ''Bike B'' (t0 + 1),
       seen_at ''C'' ''Trailer C'' (t0 + 2)])"
  by (simp add: process_listings_def get_new_listings_def dict_keys_def env_day_def cfg_ok_def
      item_def notify_listings_def notify_listing_def send_listing_def try_except_def call_def
      flaky_def truthy_def mark_seen_def dict_contains_def seen_at_def)

lemma check_env_day:
  "check_once cfg_ok env_day [] =
     (Inr 2, [item ''A'' ''Bike A'', item ''B'' ''Bike B'', item ''C'' ''Trailer C''],
      [seen_at ''A'' ''Bike A'' t0, seen_at ''B'' ''Bike B'' (t0 + 1),
       seen_at ''C'' ''Trailer C'' (t0 + 2)])"
proof -
  have c: "cleanup (cleanup_now env_day) (cleanup_days (monitor cfg_ok))
      [seen_at ''A'' ''Bike A'' t0, seen_at ''B'' ''Bike B'' (t0 + 1),
       seen_at ''C'' ''Trailer C'' (t0 + 2)]
    = Inr (0, [seen_at ''A'' ''Bike A'' t0, seen_at ''B'' ''Bike B'' (t0 + 1),
       seen_at ''C'' ''Trailer C'' (t0 + 2)])"
    by (simp add: cleanup_def cutoff_of_def timedelta_days_def datetime_sub_def datetime_max_def
        old_listings_def env_day_def cfg_ok_def seen_at_def t0_def day_us_def)
  show ?thesis
    by (simp add: check_once_def check_body_def search_env_day process_env_day c)
qed

lemma map_of_filter_Some:
  assumes "distinct (map fst d)" and "map_of (filter (\<lambda>p. P (snd p)) d) k = Some r"
  shows "map_of d k = Some r"
proof (cases "map_of d k")
  case None
  then have "k \<notin> fst ` set d"
    by (simp add: map_of_eq_None_iff)
  then have "k \<notin> fst ` set (filter (\<lambda>p. P (snd p)) d)"
    by auto
  then have "map_of (filter (\<lambda>p. P (snd p)) d) k = None"
    by (simp add: map_of_eq_None_iff)
  with assms(2) show ?thesis by simp
next
  case (Some r0)
  from map_of_filter_snd [OF assms(1) Some, of P] assms(2) Some
  show ?thesis by (auto split: if_splits)
qed

text \<open>
  C6. The batch of a cycle is the concatenation of the term results with, for each id, only
  the first listing that carries it: the ids of the batch are distinct, they are the ids of
  the term results, and each listing of the batch is the first of its id. The attempts of a
  cycle have distinct ids, and when the cycle returns, a listing of the batch that the
  storage had not seen is attempted exactly once.
\<close>

theorem cross_term_dedup:
  assumes "source_errors (scraper_search env)"
  shows "let all_listings =
             concat (term_results (scraper_search env) 0 (search_keywords (search cfg)));
           batch = unique_loop all_listings {} []
         in search_all_keywords cfg env = Inr batch
          \<and> distinct (map Listing.listing_id batch)
          \<and> set (map Listing.listing_id batch) = set (map Listing.listing_id all_listings)
          \<and> (\<forall>l \<in> set batch.
                find (\<lambda>x. Listing.listing_id x = Listing.listing_id l) all_listings = Some l)
          \<and> (\<forall>st r att st'. check_once cfg env st = (r, att, st') \<longrightarrow>
                distinct (map Listing.listing_id att)
                \<and> (\<forall>n l. r = Inr n \<longrightarrow> l \<in> set batch \<longrightarrow> \<not> has_seen (Listing.listing_id l) st \<longrightarrow>
                      length (filter (\<lambda>a. Listing.listing_id a = Listing.listing_id l) att) = 1))"
proof -
  define all_listings where
    "all_listings = concat (term_results (scraper_search env) 0 (search_keywords (search cfg)))"
  define batch where "batch = unique_loop all_listings {} []"
  have s: "search_all_keywords cfg env = Inr batch"
    by (simp add: search_all_keywords_def search_loop_concat [OF assms] batch_def all_listings_def)
  have d: "distinct (map Listing.listing_id batch)"
    unfolding batch_def by (rule unique_loop_distinct) simp_all
  have i: "set (map Listing.listing_id batch) = set (map Listing.listing_id all_listings)"
    unfolding batch_def using unique_loop_ids [of all_listings "{}" "[]"] by simp
  have f: "find (\<lambda>x. Listing.listing_id x = Listing.listing_id l) all_listings = Some l"
    if "l \<in> set batch" for l
    using unique_loop_first [of l all_listings "{}" "[]"] that unfolding batch_def by simp
  have a: "distinct (map Listing.listing_id att)
      \<and> (\<forall>n l. r = Inr n \<longrightarrow> l \<in> set batch \<longrightarrow> \<not> has_seen (Listing.listing_id l) st \<longrightarrow>
            length (filter (\<lambda>a. Listing.listing_id a = Listing.listing_id l) att) = 1)"
    if c: "check_once cfg env st = (r, att, st')" for st r att st'
  proof -
    have dn: "distinct (map Listing.listing_id (new_listings st batch))"
      unfolding new_listings_def using d by (rule distinct_map_filter)
    from check_once_attempted [OF c] s
    have "att = [] \<or> (\<exists>rest. new_listings st batch = att @ rest)"
      by auto
    with dn have da: "distinct (map Listing.listing_id att)"
      by auto
    have "length (filter (\<lambda>a. Listing.listing_id a = Listing.listing_id l) att) = 1"
      if "r = Inr n" and l: "l \<in> set batch" "\<not> has_seen (Listing.listing_id l) st" for n l
    proof -
      from c that(1) have "check_once cfg env st = (Inr n, att, st')" by simp
      then have "att = new_listings st batch"
        using s by (cases rule: check_once_cases) (auto dest: process_listings_Inr)
      with l have "l \<in> set att" by (simp add: new_listings_def)
      with da show ?thesis by (rule count_distinct_map)
    qed
    with da show ?thesis by blast
  qed
  from s d i f a show ?thesis
    unfolding Let_def all_listings_def [symmetric] batch_def [symmetric] by blast
qed

text \<open>
  C7, amended. Every record that a check cycle creates has \<open>notified = True\<close>, whether
  the send for the listing succeeded or not: \<open>_process_listings\<close> calls \<open>mark_seen\<close>
  with the default value of \<open>notified\<close>.
\<close>

theorem created_records_notified:
  assumes "wf_store st" and "check_once cfg env st = (r, att, st')"
  shows "\<forall>lid rec. \<not> has_seen lid st \<longrightarrow> map_of st' lid = Some rec \<longrightarrow> notified rec"
proof (intro allI impI)
  fix lid rec
  assume new: "\<not> has_seen lid st" and rec: "map_of st' lid = Some rec"
  from new have none: "map_of st lid = None"
    by (simp add: has_seen_def dict_contains_def)
  then have init: "\<forall>r. map_of st lid = Some r \<longrightarrow>
      notified r \<and> (\<exists>i. i < 0 \<and> last_seen r = mark_now env i)"
    by simp
  have marked: "notified rec"
    if "map_of (mark_all (mark_now env) 0 ls st) lid = Some rec" for ls
    using mark_all_record [OF init that] by simp
  obtain r0 where body: "check_body cfg env st = (r0, att, st')"
    using assms(2) unfolding check_once_def
    by (auto split: sum.splits prod.splits if_splits)
  then show "notified rec"
  proof (cases rule: check_body_cases)
    case (search_raised e)
    with rec none show ?thesis by simp
  next
    case (dispatch_raised batch e)
    with rec none show ?thesis by (auto dest: process_listings_Inl)
  next
    case (cleanup_raised batch n e)
    with rec show ?thesis by (auto dest!: process_listings_Inr intro: marked)
  next
    case (completed batch n st1 removed)
    from completed(2) have st1: "st1 = mark_all (mark_now env) 0 (new_listings st batch) st"
      by (auto dest: process_listings_Inr)
    with assms(1) have wf1: "wf_store st1"
      by (simp add: wf_mark_all)
    obtain c where c: "cutoff_of (cleanup_now env) (cleanup_days (monitor cfg)) = Inr c"
      using completed(3) by (auto simp: cleanup_def split: sum.splits)
    from cleanup_filter [OF wf1 c] completed(3)
    have "st' = filter (\<lambda>p. \<not> last_seen (snd p) < c) st1"
      by simp
    moreover from wf1 have "distinct (map fst st1)"
      by (simp add: wf_store_def dict_keys_def)
    ultimately have "map_of st1 lid = Some rec"
      using rec map_of_filter_Some [of st1 "\<lambda>x. \<not> last_seen x < c" lid rec] by simp
    with st1 show ?thesis by (auto intro: marked)
  qed
qed

text \<open>
  C1, amended. When a check cycle returns, every listing of the batch that the storage had
  not seen has been attempted, whatever the outcome of its send, and is seen in the storage
  that \<open>_process_listings\<close> leaves. Provided the cutoff of the cycle's own \<open>cleanup\<close>
  is not later than the clock readings of its \<open>mark_seen\<close> calls, the listing is also
  seen in the storage the cycle leaves, and a second cycle, started on that storage,
  attempts no notification for its id, on the same source data or on any other.
\<close>

theorem seen_after_attempt:
  assumes "wf_store st"
    and "check_once cfg env st = (Inr n, att, st')"
    and "search_all_keywords cfg env = Inr batch"
    and "l \<in> set batch" and "\<not> has_seen (Listing.listing_id l) st"
  shows "l \<in> set att
       \<and> (\<exists>m st1. process_listings cfg env batch st = (Inr m, att, st1)
                  \<and> has_seen (Listing.listing_id l) st1)
       \<and> ((\<forall>c k. cutoff_of (cleanup_now env) (cleanup_days (monitor cfg)) = Inr c
                  \<longrightarrow> c \<le> mark_now env k) \<longrightarrow>
            has_seen (Listing.listing_id l) st'
            \<and> (\<forall>cfg2 env2 r2 att2 st2. check_once cfg2 env2 st' = (r2, att2, st2) \<longrightarrow>
                  Listing.listing_id l \<notin> set (map Listing.listing_id att2)))"
proof -
  let ?new = "new_listings st batch"
  let ?st1 = "mark_all (mark_now env) 0 ?new st"
  let ?retention = "\<forall>c k. cutoff_of (cleanup_now env) (cleanup_days (monitor cfg)) = Inr c
                  \<longrightarrow> c \<le> mark_now env k"
  from assms(4,5) have ln: "l \<in> set ?new"
    by (simp add: new_listings_def)
  then have seen1: "has_seen (Listing.listing_id l) ?st1"
    by (rule has_seen_mark_all_new)
  from assms(1) have wf1: "wf_store ?st1"
    by (rule wf_mark_all)
  from assms(5) have init: "\<forall>r. map_of st (Listing.listing_id l) = Some r \<longrightarrow>
      notified r \<and> (\<exists>i. i < 0 \<and> last_seen r = mark_now env i)"
    by (simp add: has_seen_def dict_contains_def)
  from assms(2) have main: "l \<in> set att
       \<and> (\<exists>m st1. process_listings cfg env batch st = (Inr m, att, st1)
                  \<and> has_seen (Listing.listing_id l) st1)
       \<and> (?retention \<longrightarrow> has_seen (Listing.listing_id l) st')"
  proof (cases rule: check_once_cases)
    case (cleanup_raised batch' m e)
    with assms(3) have p: "process_listings cfg env batch st = (Inr m, att, st')"
      by simp
    from process_listings_Inr [OF p] ln seen1
    have "l \<in> set att" and "has_seen (Listing.listing_id l) st'"
      by simp_all
    with p show ?thesis by blast
  next
    case (completed batch' st1 removed)
    with assms(3) have p: "process_listings cfg env batch st = (Inr n, att, st1)"
      by simp
    from process_listings_Inr [OF p] have att: "att = ?new" and st1: "st1 = ?st1"
      by simp_all
    obtain c where c: "cutoff_of (cleanup_now env) (cleanup_days (monitor cfg)) = Inr c"
      using completed(3) by (auto simp: cleanup_def split: sum.splits)
    from seen1 obtain rec where rec: "map_of ?st1 (Listing.listing_id l) = Some rec"
      by (auto simp: has_seen_def dict_contains_def)
    from mark_all_record [OF init rec] obtain i where i: "last_seen rec = mark_now env i"
      by auto
    from wf1 have dist: "distinct (map fst ?st1)"
      by (simp add: wf_store_def dict_keys_def)
    from cleanup_filter [OF wf1 c] completed(3) st1
    have st': "st' = filter (\<lambda>p. \<not> last_seen (snd p) < c) ?st1"
      by simp
    have "has_seen (Listing.listing_id l) st'" if ?retention
    proof -
      from that c i have keep: "c \<le> last_seen rec"
        by simp
      with map_of_filter_snd [OF dist rec, of "\<lambda>x. \<not> last_seen x < c"] st'
      show ?thesis
        by (simp add: has_seen_def dict_contains_def)
    qed
    with att ln p st1 seen1 show ?thesis by blast
  qed
  moreover have "Listing.listing_id l \<notin> set (map Listing.listing_id att2)"
    if "has_seen (Listing.listing_id l) st'" and "check_once cfg2 env2 st' = (r2, att2, st2)"
    for cfg2 env2 r2 att2 st2
    using that check_once_attempted_new [OF that(2)] by auto
  ultimately show ?thesis by blast
qed

lemma source_errors_env_day: "source_errors (scraper_search env_day)"
  by (simp add: source_errors_def env_day_def)

lemma channel_errors_flaky: "channel_errors flaky"
  by (auto simp: channel_errors_def flaky_def)

lemma term_results_env_day:
  "concat (term_results (scraper_search env_day) 0 (search_keywords (search cfg_ok))) =
     [item ''A'' ''Bike A'', item ''B'' ''Bike B'', item ''B'' ''Bike B again'',
      item ''C'' ''Trailer C'']"
  by (simp add: term_results_def env_day_def cfg_ok_def)

lemma check_env_day_eq: "check_once cfg_ok env_day [] = (Inr 2, batch_day, store_day)"
  by (simp add: check_env_day batch_day_def store_day_def)

lemma check_env_down:
  "check_once cfg_ok env_down [] = (Inr 0, [item ''A'' ''Bike A''], [seen_at ''A'' ''Bike A'' t0])"
  by (simp add: check_once_def check_body_def search_all_keywords_def
      process_listings_def get_new_listings_def dict_keys_def env_down_def cfg_ok_def
      item_def notify_listings_def notify_listing_def send_listing_def try_except_def call_def
      down_def truthy_def mark_seen_def dict_contains_def seen_at_def
      cleanup_def cutoff_of_def timedelta_days_def datetime_sub_def datetime_max_def
      old_listings_def t0_def day_us_def)

lemma check_env_down_zero:
  "check_once cfg_zero env_down [] = (Inr 0, [item ''A'' ''Bike A''], [])"
  by (simp add: check_once_def check_body_def search_all_keywords_def
      process_listings_def get_new_listings_def dict_keys_def env_down_def cfg_ok_def cfg_zero_def
      item_def notify_listings_def notify_listing_def send_listing_def try_except_def call_def
      down_def truthy_def mark_seen_def dict_contains_def seen_at_def
      cleanup_def cutoff_of_def timedelta_days_def datetime_sub_def datetime_max_def
      old_listings_def t0_def day_us_def)

lemma notify_down:
  "notify_listing cfg_ok down 0 (item ''A'' ''Bike A'') = Inr False"
  "notify_listing cfg_zero down 0 (item ''A'' ''Bike A'') = Inr False"
  by (simp_all add: notify_listing_def send_listing_def try_except_def call_def down_def
      truthy_def item_def cfg_ok_def cfg_zero_def)

lemma body_far:
  "fst (check_body cfg_far env_day []) = Inl (OverflowError ''days must have magnitude <= 999999999'')"
proof -
  have p: "process_listings cfg_far env_day
     [item ''A'' ''Bike A'', item ''B'' ''Bike B'', item ''C'' ''Trailer C''] []
   = (Inr 2, [item ''A'' ''Bike A'', item ''B'' ''Bike B'', item ''C'' ''Trailer C''],
      [seen_at ''A'' ''Bike A'' t0, seen_at ''B'' ''Bike B'' (t0 + 1),
       seen_at ''C'' ''Trailer C'' (t0 + 2)])"
    by (simp add: process_listings_def get_new_listings_def dict_keys_def env_day_def cfg_ok_def
      cfg_far_def
      item_def notify_listings_def notify_listing_def send_listing_def try_except_def call_def
      flaky_def truthy_def mark_seen_def dict_contains_def seen_at_def)
  have s: "search_all_keywords cfg_far env_day =
     Inr [item ''A'' ''Bike A'', item ''B'' ''Bike B'', item ''C'' ''Trailer C'']"
    by (simp add: search_all_keywords_def cfg_ok_def cfg_far_def env_day_def try_except_def item_def)
  have c: "cleanup (cleanup_now env_day) (cleanup_days (monitor cfg_far)) st =
      Inl (OverflowError ''days must have magnitude <= 999999999'')" for st
    by (simp add: cleanup_def cutoff_of_def timedelta_days_def cfg_far_def cfg_ok_def)
  show ?thesis
    by (simp add: check_body_def s p c)
qed

theorem check_once_total_witness:
  "source_errors (scraper_search env_day) \<and> channel_errors (telegram_bot env_day)
   \<and> check_once cfg_ok env_day [] = (Inr 2, batch_day, store_day)
   \<and> successes cfg_ok (telegram_bot env_day) batch_day = 2
   \<and> is_Exception (OverflowError ''days must have magnitude <= 999999999'')
   \<and> fst (check_once cfg_far env_day []) = Inr 0"
proof -
  have tb: "telegram_bot env_day = flaky"
    by (simp add: env_day_def)
  have b: "fst (check_body cfg_ok env_day []) = Inr 2"
    using check_env_day_eq by (auto simp: check_once_def split: prod.splits sum.splits if_splits)
  from check_once_total [of cfg_ok env_day "[]"] b
  have "2 = successes cfg_ok (telegram_bot env_day) (fst (snd (check_once cfg_ok env_day [])))"
    by blast
  then have s: "successes cfg_ok (telegram_bot env_day) batch_day = 2"
    by (simp add: check_env_day_eq)
  from check_once_total [of cfg_far env_day "[]"] body_far
  have z: "fst (check_once cfg_far env_day []) = Inr 0"
    by simp
  show ?thesis
    using source_errors_env_day channel_errors_flaky tb check_env_day_eq s z by simp
qed

text \<open>
  C10 as stated fails: the task is cancelled while the send for listing A is awaited, the
  await raises \<open>CancelledError\<close>, neither handler catches it, and it leaves
  \<open>check_once\<close>.
\<close>

theorem check_once_total_counterexample:
  "send_message (telegram_bot env_cancel) 0 (item ''A'' ''Bike A'') = Some CancelledError
   \<and> check_once cfg_ok env_cancel [] = (Inl CancelledError, [item ''A'' ''Bike A''], [])"
  by (simp add: check_once_def check_body_def search_all_keywords_def
      process_listings_def get_new_listings_def dict_keys_def env_cancel_def cfg_ok_def
      item_def notify_listings_def notify_listing_def send_listing_def try_except_def call_def
      cancelled_def truthy_def)

theorem cross_term_dedup_witness:
  "source_errors (scraper_search env_day)
   \<and> concat (term_results (scraper_search env_day) 0 (search_keywords (search cfg_ok))) =
       [item ''A'' ''Bike A'', item ''B'' ''Bike B'', item ''B'' ''Bike B again'',
        item ''C'' ''Trailer C'']
   \<and> search_all_keywords cfg_ok env_day = Inr batch_day
   \<and> distinct (map Listing.listing_id batch_day)
   \<and> check_once cfg_ok env_day [] = (Inr 2, batch_day, store_day)
   \<and> length (filter (\<lambda>a. Listing.listing_id a = Listing.listing_id (item ''B'' ''Bike B''))
         batch_day) = 1"
proof -
  note inst = cross_term_dedup [OF source_errors_env_day, of cfg_ok,
      unfolded Let_def term_results_env_day]
  have u: "unique_loop [item ''A'' ''Bike A'', item ''B'' ''Bike B'', item ''B'' ''Bike B again'',
        item ''C'' ''Trailer C''] {} [] = batch_day"
    by (simp add: batch_day_def item_def)
  from inst have s: "search_all_keywords cfg_ok env_day = Inr batch_day"
    and d: "distinct (map Listing.listing_id batch_day)"
    and a: "\<And>st r att st' n l. check_once cfg_ok env_day st = (r, att, st') \<Longrightarrow> r = Inr n \<Longrightarrow>
              l \<in> set batch_day \<Longrightarrow> \<not> has_seen (Listing.listing_id l) st \<Longrightarrow>
              length (filter (\<lambda>a. Listing.listing_id a = Listing.listing_id l) att) = 1"
    unfolding u by blast+
  have "length (filter (\<lambda>a. Listing.listing_id a = Listing.listing_id (item ''B'' ''Bike B''))
         batch_day) = 1"
    by (rule a [OF check_env_day_eq refl]) (simp_all add: batch_day_def has_seen_def dict_contains_def)
  with source_errors_env_day term_results_env_day s d check_env_day_eq show ?thesis
    by simp
qed

theorem created_records_notified_witness:
  "wf_store []
   \<and> check_once cfg_ok env_day [] = (Inr 2, batch_day, store_day)
   \<and> \<not> has_seen ''B'' []
   \<and> notify_listing cfg_ok (telegram_bot env_day) 1 (item ''B'' ''Bike B'') = Inr False
   \<and> map_of store_day ''B'' = Some (snd (seen_at ''B'' ''Bike B'' (t0 + 1)))
   \<and> notified (snd (seen_at ''B'' ''Bike B'' (t0 + 1)))"
proof -
  have wf: "wf_store []"
    by (simp add: wf_store_def dict_keys_def)
  have n: "\<not> has_seen ''B'' []"
    by (simp add: has_seen_def dict_contains_def)
  have m: "map_of store_day ''B'' = Some (snd (seen_at ''B'' ''Bike B'' (t0 + 1)))"
    by (simp add: store_day_def seen_at_def)
  have f: "notify_listing cfg_ok (telegram_bot env_day) 1 (item ''B'' ''Bike B'') = Inr False"
    by (simp add: notify_listing_def send_listing_def try_except_def call_def flaky_def
      truthy_def item_def cfg_ok_def env_day_def)
  from created_records_notified [OF wf check_env_day_eq] n m
  have "notified (snd (seen_at ''B'' ''Bike B'' (t0 + 1)))"
    by blast
  with wf check_env_day_eq n m f show ?thesis by simp
qed

text \<open>
  C7 as stated fails: the send for listing A fails, the cycle reports 0 notifications, and
  the record created for A has \<open>notified = True\<close>.
\<close>

theorem created_records_notified_counterexample:
  "notify_listing cfg_ok (telegram_bot env_down) 0 (item ''A'' ''Bike A'') = Inr False
   \<and> check_once cfg_ok env_down [] =
       (Inr 0, [item ''A'' ''Bike A''],
        [(''A'', \<lparr>ListingRecord.listing_id = ''A'', title = ''Bike A'', first_seen = t0,
                 last_seen = t0, notified = True\<rparr>)])"
proof -
  have tb: "telegram_bot env_down = down"
    by (simp add: env_down_def)
  show ?thesis
    by (simp add: tb notify_down(1) check_env_down seen_at_def)
qed

theorem seen_after_attempt_witness:
  "wf_store []
   \<and> check_once cfg_ok env_day [] = (Inr 2, batch_day, store_day)
   \<and> search_all_keywords cfg_ok env_day = Inr batch_day
   \<and> item ''B'' ''Bike B'' \<in> set batch_day
   \<and> notify_listing cfg_ok (telegram_bot env_day) 1 (item ''B'' ''Bike B'') = Inr False
   \<and> has_seen ''B'' store_day
   \<and> ''B'' \<notin> set (map Listing.listing_id (fst (snd (check_once cfg_ok env_day store_day))))"
proof -
  have wf: "wf_store []"
    by (simp add: wf_store_def dict_keys_def)
  have s: "search_all_keywords cfg_ok env_day = Inr batch_day"
    by (simp add: search_env_day batch_day_def)
  have l: "item ''B'' ''Bike B'' \<in> set batch_day"
    by (simp add: batch_day_def)
  have n: "\<not> has_seen (Listing.listing_id (item ''B'' ''Bike B'')) []"
    by (simp add: has_seen_def dict_contains_def)
  have ret: "\<forall>c k. cutoff_of (cleanup_now env_day) (cleanup_days (monitor cfg_ok)) = Inr c
            \<longrightarrow> c \<le> mark_now env_day k"
    by (simp add: cutoff_of_def timedelta_days_def datetime_sub_def datetime_max_def
        env_day_def cfg_ok_def t0_def day_us_def)
  have f: "notify_listing cfg_ok (telegram_bot env_day) 1 (item ''B'' ''Bike B'') = Inr False"
    by (simp add: notify_listing_def send_listing_def try_except_def call_def flaky_def
      truthy_def item_def cfg_ok_def env_day_def)
  have id: "Listing.listing_id (item ''B'' ''Bike B'') = ''B''"
    by (simp add: item_def)
  obtain r2 att2 st2 where c2: "check_once cfg_ok env_day store_day = (r2, att2, st2)"
    by (cases "check_once cfg_ok env_day store_day") auto
  from seen_after_attempt [OF wf check_env_day_eq s l n] ret c2
  have "has_seen ''B'' store_day" and "''B'' \<notin> set (map Listing.listing_id att2)"
    unfolding id by blast+
  with wf check_env_day_eq s l f c2 show ?thesis by simp
qed

text \<open>
  C1 as stated fails when the retention is zero days: the send for listing A fails, A is
  marked and the cleanup that ends the same cycle evicts it, so A is not seen afterwards and
  the next cycle on the same source data attempts it again.
\<close>

theorem seen_after_attempt_counterexample:
  "notify_listing cfg_zero (telegram_bot env_down) 0 (item ''A'' ''Bike A'') = Inr False
   \<and> check_once cfg_zero env_down [] = (Inr 0, [item ''A'' ''Bike A''], [])
   \<and> \<not> has_seen ''A'' (snd (snd (check_once cfg_zero env_down [])))
   \<and> fst (snd (check_once cfg_zero env_down (snd (snd (check_once cfg_zero env_down [])))))
       = [item ''A'' ''Bike A'']"
proof -
  have tb: "telegram_bot env_down = down"
    by (simp add: env_down_def)
  show ?thesis
    by (simp add: tb notify_down(2) check_env_down_zero has_seen_def dict_contains_def)
qed

section \<open>Properties of the monitor loop\<close>

lemma sleeps_append: "sleeps (xs @ ys) = sleeps xs @ sleeps ys"
  by (induction xs rule: sleeps.induct) simp_all

lemma run_loop_failed:
  assumes "running m" and "failed it"
  shows "run_loop mc (it # rest) m rc =
     (if rc + 1 \<ge> max_retries mc
      then prepend [CheckOnce, Sleep (retry_delay_seconds mc), Sleep 0] (run_loop mc rest m 0)
      else prepend [CheckOnce, Sleep (min (30 * (rc + 1)) 300)] (run_loop mc rest m (rc + 1)))"
  using assms by (auto simp: failed_def split: sum.splits)

lemma prepend_Nil: "prepend [] res = res"
  by (cases res) (simp add: prepend_def)

lemma prepend_prepend: "prepend xs (prepend ys res) = prepend (xs @ ys) res"
  by (cases res) (simp add: prepend_def)

lemma run_loop_failures:
  assumes "running m" and "\<forall>it \<in> set script. failed it"
    and "rc + int (length script) < max_retries mc"
  shows "\<exists>tr. (\<forall>rest. run_loop mc (script @ rest) m rc =
                    prepend tr (run_loop mc rest m (rc + int (length script))))
          \<and> sleeps tr = map (\<lambda>i. min (30 * (rc + int i)) 300) [1..<Suc (length script)]"
  using assms(2,3)
proof (induction script arbitrary: rc)
  case Nil
  have "(\<forall>rest. run_loop mc ([] @ rest) m rc = prepend [] (run_loop mc rest m (rc + int (length ([]::iteration list)))))
      \<and> sleeps [] = map (\<lambda>i. min (30 * (rc + int i)) 300) [1..<Suc (length ([]::iteration list))]"
    by (simp add: prepend_Nil)
  then show ?case by blast
next
  case (Cons it script)
  from Cons.prems have f: "failed it" and below: "\<not> rc + 1 \<ge> max_retries mc"
    and all: "\<forall>it \<in> set script. failed it"
    and bound: "(rc + 1) + int (length script) < max_retries mc"
    by auto
  from Cons.IH [OF all bound] obtain tr where
    tr: "\<And>rest. run_loop mc (script @ rest) m (rc + 1) =
           prepend tr (run_loop mc rest m (rc + 1 + int (length script)))"
    and sl: "sleeps tr = map (\<lambda>i. min (30 * (rc + 1 + int i)) 300) [1..<Suc (length script)]"
    by blast
  let ?tr = "[CheckOnce, Sleep (min (30 * (rc + 1)) 300)] @ tr"
  have "run_loop mc ((it # script) @ rest) m rc =
      prepend ?tr (run_loop mc rest m (rc + int (length (it # script))))" for rest
    using run_loop_failed [OF assms(1) f, of mc "script @ rest" rc] below tr [of rest]
    by (simp add: prepend_prepend add.assoc)
  moreover have "sleeps ?tr =
      map (\<lambda>i. min (30 * (rc + int i)) 300) [1..<Suc (length (it # script))]"
  proof -
    have "[1..<Suc (length (it # script))] = 1 # map Suc [1..<Suc (length script)]"
      by (simp add: upt_conv_Cons map_Suc_upt del: upt_Suc)
    then show ?thesis
      by (simp add: sl sleeps_append comp_def algebra_simps del: upt_Suc)
  qed
  ultimately show ?case by blast
qed

text \<open>
  The retry branch of the loop, for a script that holds failed iterations: a failure
  increments the retry counter; below \<open>max_retries\<close> the loop sleeps
  \<open>min(30 * retry_count, 300)\<close> and goes on with the incremented counter, and when the
  counter reaches \<open>max_retries\<close> it sleeps \<open>retry_delay_seconds\<close>, sets the counter to
  zero, and the backoff sleep that follows has length \<open>min(30 * 0, 300) = 0\<close>.
\<close>

lemma run_loop_retry_branch:
  assumes "running m" and "\<forall>it \<in> set script. failed it"
  shows "(\<forall>it rest rc. failed it \<longrightarrow>
            run_loop mc (it # rest) m rc =
              (if rc + 1 \<ge> max_retries mc
               then prepend [CheckOnce, Sleep (retry_delay_seconds mc), Sleep 0]
                      (run_loop mc rest m 0)
               else prepend [CheckOnce, Sleep (min (30 * (rc + 1)) 300)]
                      (run_loop mc rest m (rc + 1))))
       \<and> (int (length script) < max_retries mc \<longrightarrow>
            (\<exists>tr. run_loop mc script m 0 = (More, m, int (length script), tr)
                  \<and> sleeps tr = backoffs (length script)))
       \<and> (\<forall>it. failed it \<and> int (length script) + 1 = max_retries mc \<longrightarrow>
            (\<exists>tr. run_loop mc (script @ [it]) m 0 = (More, m, 0, tr)
                  \<and> sleeps tr = backoffs (length script) @ [retry_delay_seconds mc, 0]))"
proof -
  have step: "run_loop mc (it # rest) m rc =
              (if rc + 1 \<ge> max_retries mc
               then prepend [CheckOnce, Sleep (retry_delay_seconds mc), Sleep 0]
                      (run_loop mc rest m 0)
               else prepend [CheckOnce, Sleep (min (30 * (rc + 1)) 300)]
                      (run_loop mc rest m (rc + 1)))"
    if "failed it" for it rest rc
    using assms(1) that by (rule run_loop_failed)
  have below: "\<exists>tr. run_loop mc script m 0 = (More, m, int (length script), tr)
                  \<and> sleeps tr = backoffs (length script)"
    if "int (length script) < max_retries mc"
  proof -
    from run_loop_failures [OF assms, of 0 mc] that obtain tr where
      tr: "\<And>rest. run_loop mc (script @ rest) m 0 =
             prepend tr (run_loop mc rest m (int (length script)))"
      and sl: "sleeps tr = backoffs (length script)"
      by (auto simp: backoffs_def)
    from tr [of "[]"] have "run_loop mc script m 0 = (More, m, int (length script), tr)"
      by (simp add: prepend_def)
    with sl show ?thesis by blast
  qed
  have reach: "\<exists>tr. run_loop mc (script @ [it]) m 0 = (More, m, 0, tr)
                  \<and> sleeps tr = backoffs (length script) @ [retry_delay_seconds mc, 0]"
    if "failed it \<and> int (length script) + 1 = max_retries mc" for it
  proof -
    from that have f: "failed it" and eq: "int (length script) + 1 = max_retries mc"
      by simp_all
    from eq have "0 + int (length script) < max_retries mc"
      by simp
    from run_loop_failures [OF assms this] obtain tr where
      tr: "\<And>rest. run_loop mc (script @ rest) m 0 =
             prepend tr (run_loop mc rest m (int (length script)))"
      and sl: "sleeps tr = backoffs (length script)"
      by (auto simp: backoffs_def)
    from step [OF f, of "[]" "int (length script)"] eq
    have "run_loop mc [it] m (int (length script)) =
        (More, m, 0, [CheckOnce, Sleep (retry_delay_seconds mc), Sleep 0])"
      by (simp add: prepend_def)
    with tr [of "[it]"] have "run_loop mc (script @ [it]) m 0 =
        (More, m, 0, tr @ [CheckOnce, Sleep (retry_delay_seconds mc), Sleep 0])"
      by (simp add: prepend_def)
    moreover have "sleeps (tr @ [CheckOnce, Sleep (retry_delay_seconds mc), Sleep 0]) =
        backoffs (length script) @ [retry_delay_seconds mc, 0]"
      by (simp add: sleeps_append sl)
    ultimately show ?thesis by blast
  qed
  from step below reach show ?thesis by blast
qed

lemma run_loop_retry_branch_example:
  "running mon \<and> failed failure
   \<and> max_retries (monitor cfg_ok) = 5
   \<and> sleeps (snd (snd (snd (run_loop (monitor cfg_ok) [failure, failure, failure] mon 0))))
       = [30, 60, 90]
   \<and> fst (snd (snd (run_loop (monitor cfg_ok) [failure, failure, failure] mon 0))) = 3
   \<and> sleeps (snd (snd (snd (run_loop (monitor cfg_ok)
         [failure, failure, failure, failure, failure] mon 0))))
       = [30, 60, 90, 120, 60, 0]
   \<and> fst (snd (snd (run_loop (monitor cfg_ok)
         [failure, failure, failure, failure, failure] mon 0))) = 0"
proof -
  have r: "running mon"
    by (simp add: mon_def)
  have f: "failed failure"
    by (simp add: failed_def failure_def)
  have f3: "\<forall>it \<in> set [failure, failure, failure]. failed it"
    and f4: "\<forall>it \<in> set [failure, failure, failure, failure]. failed it"
    using f by simp_all
  have mx: "max_retries (monitor cfg_ok) = 5" and rd: "retry_delay_seconds (monitor cfg_ok) = 60"
    by (simp_all add: cfg_ok_def)
  have b3: "backoffs (length [failure, failure, failure]) = [30, 60, 90]"
    and b4: "backoffs (length [failure, failure, failure, failure]) = [30, 60, 90, 120]"
    by (simp_all add: backoffs_def upt_rec)
  have lt: "int (length [failure, failure, failure]) < max_retries (monitor cfg_ok)"
    by (simp add: mx)
  have eq: "failed failure
      \<and> int (length [failure, failure, failure, failure]) + 1 = max_retries (monitor cfg_ok)"
    by (simp add: mx f)
  from run_loop_retry_branch [OF r f3, of "monitor cfg_ok", THEN conjunct2, THEN conjunct1,
      rule_format, OF lt]
  obtain tr3 where
    t3: "run_loop (monitor cfg_ok) [failure, failure, failure] mon 0
          = (More, mon, int (length [failure, failure, failure]), tr3)"
    and s3: "sleeps tr3 = backoffs (length [failure, failure, failure])"
    by blast
  from run_loop_retry_branch [OF r f4, of "monitor cfg_ok", THEN conjunct2, THEN conjunct2,
      rule_format, OF eq]
  obtain tr5 where
    t5: "run_loop (monitor cfg_ok) ([failure, failure, failure, failure] @ [failure]) mon 0
          = (More, mon, 0, tr5)"
    and s5: "sleeps tr5 = backoffs (length [failure, failure, failure, failure])
               @ [retry_delay_seconds (monitor cfg_ok), 0]"
    by blast
  from t5 have t5': "run_loop (monitor cfg_ok)
      [failure, failure, failure, failure, failure] mon 0 = (More, mon, 0, tr5)"
    by (simp del: run_loop.simps)
  show ?thesis
    using r f mx unfolding t3 t5' by (simp add: s3 s5 rd b3 [simplified] b4 [simplified])
qed

text \<open>
  C8. With an invalid configuration \<open>run\<close> returns at once: it logs a header and one
  line for each error of \<open>validate\<close> (no notification method, no search keywords), and no
  check cycle, sleep or status message happens. The flag \<open>_running\<close>, set at the start
  of \<open>run\<close>, is still set when \<open>run\<close> has returned: this path does not reach
  \<open>shutdown\<close>, which clears the flag on every other exit.
\<close>

theorem run_invalid_config:
  assumes "validate cfg \<noteq> []"
  shows "run cfg script m =
           (Returned, m\<lparr>running := True\<rparr>,
            LogError ''Configuration errors:''
              # map (\<lambda>error. LogError (''  - '' @ error)) (validate cfg))
       \<and> CheckOnce \<notin> set (snd (snd (run cfg script m)))
       \<and> running (fst (snd (run cfg script m)))
       \<and> (''No notification method configured. Enable Telegram or WhatsApp.'' \<in> set (validate cfg)
            \<longleftrightarrow> \<not> TelegramConfig.enabled (telegram cfg) \<and> \<not> WhatsAppConfig.enabled (whatsapp cfg))
       \<and> (''No search keywords configured. Set SEARCH_KEYWORDS env var.'' \<in> set (validate cfg)
            \<longleftrightarrow> search_keywords (search cfg) = [])"
proof -
  have r: "run cfg script m =
           (Returned, m\<lparr>running := True\<rparr>,
            LogError ''Configuration errors:''
              # map (\<lambda>error. LogError (''  - '' @ error)) (validate cfg))"
    using assms by (simp add: run_def)
  have "CheckOnce \<notin> set (snd (snd (run cfg script m)))"
    unfolding r by auto
  moreover have "running (fst (snd (run cfg script m)))"
    unfolding r by simp
  moreover have "''No notification method configured. Enable Telegram or WhatsApp.'' \<in> set (validate cfg)
            \<longleftrightarrow> \<not> TelegramConfig.enabled (telegram cfg) \<and> \<not> WhatsAppConfig.enabled (whatsapp cfg)"
    by (simp add: validate_def)
  moreover have "''No search keywords configured. Set SEARCH_KEYWORDS env var.'' \<in> set (validate cfg)
            \<longleftrightarrow> search_keywords (search cfg) = []"
    by (simp add: validate_def)
  ultimately show ?thesis using r by blast
qed

theorem run_invalid_config_witness:
  "validate cfg_invalid \<noteq> []
   \<and> run cfg_invalid [\<lparr>stop_requested = False, check_result = Inr 1\<rparr>] \<lparr>running = False\<rparr> =
       (Returned, \<lparr>running = True\<rparr>,
        [LogError ''Configuration errors:'',
         LogError ''  - No notification method configured. Enable Telegram or WhatsApp.'',
         LogError ''  - No search keywords configured. Set SEARCH_KEYWORDS env var.''])"
proof -
  have v: "validate cfg_invalid =
      [''No notification method configured. Enable Telegram or WhatsApp.'',
       ''No search keywords configured. Set SEARCH_KEYWORDS env var.'']"
    by (simp add: validate_def cfg_invalid_def)
  then have ne: "validate cfg_invalid \<noteq> []"
    by simp
  from run_invalid_config [OF ne, of "[\<lparr>stop_requested = False, check_result = Inr 1\<rparr>]"
      "\<lparr>running = False\<rparr>"]
  show ?thesis
    using ne by (simp add: v)
qed

text \<open>
  What the loop receives from \<open>check_once\<close> as it is written. An exception that does
  not derive from \<open>Exception\<close>, such as a cancellation raised while the first search is
  awaited, passes both handlers and reaches \<open>run\<close>. An error never does, so the
  iteration that \<open>run\<close> counts as failed does not arise from \<open>check_once\<close> itself:
  a cycle whose body raised an error looks to \<open>run\<close> like a cycle that sent nothing.
\<close>

lemma check_once_passes_signal:
  assumes "search_keywords (search cfg) = kw # kws" and "scraper_search env 0 kw = Inl e"
    and "\<not> is_Exception e"
  shows "check_once cfg env st = (Inl e, [], st)"
  using assms
  by (simp add: check_once_def check_body_def search_all_keywords_def try_except_def)

lemma check_once_never_failed:
  "\<not> failed \<lparr>stop_requested = b, check_result = fst (check_once cfg env st)\<rparr>"
  by (auto simp: failed_def check_once_def split: prod.splits sum.splits if_splits)

lemma cycle_script_not_failed: "it \<in> set (cycle_script cfg cycles st) \<Longrightarrow> \<not> failed it"
  by (induction cycles arbitrary: st) (auto simp: check_once_never_failed)

lemma length_cycle_script: "length (cycle_script cfg cycles st) = length cycles"
  by (induction cycles arbitrary: st) simp_all

lemma run_loop_no_failed:
  assumes "\<forall>it \<in> set script. \<not> failed it"
    and "run_loop mc script m 0 = (le, m', rc, tr)"
  shows "rc = 0 \<and> (\<forall>d \<in> set (sleeps tr). d = check_interval_seconds mc)"
  using assms
proof (induction script arbitrary: le m' rc tr)
  case Nil
  then show ?case by simp
next
  case (Cons it rest)
  show ?case
  proof (cases "stop_requested it \<or> \<not> running m")
    case True
    with Cons.prems(2) show ?thesis by auto
  next
    case False
    show ?thesis
    proof (cases "check_result it")
      case (Inl e)
      with False Cons.prems(1) have "\<not> is_Exception e"
        by (auto simp: failed_def)
      with False Inl Cons.prems(2) show ?thesis by auto
    next
      case (Inr n)
      obtain le0 m0 rc0 tr0 where r: "run_loop mc rest m 0 = (le0, m0, rc0, tr0)"
        by (cases "run_loop mc rest m 0") auto
      from Cons.prems(1) have "\<forall>it \<in> set rest. \<not> failed it" by simp
      from Cons.IH [OF this r]
      have "rc0 = 0" and "\<forall>d \<in> set (sleeps tr0). d = check_interval_seconds mc"
        by simp_all
      with False Inr r Cons.prems(2) show ?thesis
        by (auto simp: prepend_def)
    qed
  qed
qed

lemma run_loop_all_returned:
  assumes "running m"
    and "\<forall>it \<in> set script. \<not> stop_requested it \<and> (\<exists>n. check_result it = Inr n)"
  shows "\<exists>tr. run_loop mc script m start = (More, m, (if script = [] then start else 0), tr)
          \<and> sleeps tr = replicate (length script) (check_interval_seconds mc)"
  using assms(2)
proof (induction script arbitrary: start)
  case Nil
  then show ?case by simp
next
  case (Cons it rest)
  from Cons.prems obtain n where it: "\<not> stop_requested it" "check_result it = Inr n"
    by auto
  from Cons.prems have "\<forall>it \<in> set rest. \<not> stop_requested it \<and> (\<exists>n. check_result it = Inr n)"
    by simp
  from Cons.IH [OF this, of 0] obtain tr where
    "run_loop mc rest m 0 = (More, m, 0, tr)"
    and "sleeps tr = replicate (length rest) (check_interval_seconds mc)"
    by (auto split: if_splits)
  with it assms(1) show ?case
    by (simp add: prepend_def)
qed

lemma cycle_script_returned:
  assumes "\<forall>c \<in> set cycles. \<not> fst c \<and> source_errors (scraper_search (snd c))
             \<and> channel_errors (telegram_bot (snd c))"
  shows "\<forall>it \<in> set (cycle_script cfg cycles st).
           \<not> stop_requested it \<and> (\<exists>n. check_result it = Inr n)"
  using assms
proof (induction cycles arbitrary: st)
  case Nil
  then show ?case by simp
next
  case (Cons c rest)
  then have "\<exists>n. fst (check_once cfg (snd c) st) = Inr n"
    by (simp add: check_once_returns)
  with Cons show ?case by simp
qed

text \<open>
  C5. In the program the loop awaits \<open>check_once\<close> itself. Whatever happens inside the
  cycles, no iteration is a failure for the loop: wherever the loop stands its retry counter
  is 0 and every sleep it has made is \<open>check_interval_seconds\<close>, and when the cycles
  meet nothing worse than errors and no stop is requested, the loop sleeps
  \<open>check_interval_seconds\<close> after each of them. The backoff of 30, 60, 90 is in the
  retry branch, which a failing cycle never reaches.
\<close>

theorem cycle_errors_no_backoff:
  assumes "run_loop (monitor cfg) (cycle_script cfg cycles st) m 0 = (le, m', rc, tr)"
  shows "rc = 0
       \<and> (\<forall>it \<in> set (cycle_script cfg cycles st). \<not> failed it)
       \<and> (\<forall>d \<in> set (sleeps tr). d = check_interval_seconds (monitor cfg))
       \<and> (running m \<and> (\<forall>c \<in> set cycles. \<not> fst c \<and> source_errors (scraper_search (snd c))
                                   \<and> channel_errors (telegram_bot (snd c))) \<longrightarrow>
            le = More
            \<and> sleeps tr = replicate (length cycles) (check_interval_seconds (monitor cfg)))"
proof -
  have nf: "\<forall>it \<in> set (cycle_script cfg cycles st). \<not> failed it"
    by (simp add: cycle_script_not_failed)
  from run_loop_no_failed [OF nf assms]
  have a: "rc = 0" and b: "\<forall>d \<in> set (sleeps tr). d = check_interval_seconds (monitor cfg)"
    by simp_all
  have c: "le = More
      \<and> sleeps tr = replicate (length cycles) (check_interval_seconds (monitor cfg))"
    if "running m" and "\<forall>c \<in> set cycles. \<not> fst c \<and> source_errors (scraper_search (snd c))
                                   \<and> channel_errors (telegram_bot (snd c))"
  proof -
    have ret: "\<forall>it \<in> set (cycle_script cfg cycles st).
           \<not> stop_requested it \<and> (\<exists>n. check_result it = Inr n)"
      using that(2) by (rule cycle_script_returned)
    from run_loop_all_returned [OF that(1) ret, where mc = "monitor cfg" and start = 0] assms
    show ?thesis by (auto simp: length_cycle_script)
  qed
  from a nf b c show ?thesis by blast
qed

lemma body_far_again:
  "fst (check_body cfg_far env_day store_day) =
     Inl (OverflowError ''days must have magnitude <= 999999999'')"
proof -
  have p: "process_listings cfg_far env_day
     [item ''A'' ''Bike A'', item ''B'' ''Bike B'', item ''C'' ''Trailer C''] store_day
   = (Inr 0, [], store_day)"
    by (simp add: process_listings_def get_new_listings_def dict_keys_def store_day_def
        seen_at_def item_def)
  have s: "search_all_keywords cfg_far env_day =
     Inr [item ''A'' ''Bike A'', item ''B'' ''Bike B'', item ''C'' ''Trailer C'']"
    by (simp add: search_all_keywords_def cfg_ok_def cfg_far_def env_day_def try_except_def item_def)
  have c: "cleanup (cleanup_now env_day) (cleanup_days (monitor cfg_far)) st =
      Inl (OverflowError ''days must have magnitude <= 999999999'')" for st
    by (simp add: cleanup_def cutoff_of_def timedelta_days_def cfg_far_def cfg_ok_def)
  show ?thesis
    by (simp add: check_body_def s p c)
qed

theorem cycle_errors_no_backoff_witness:
  "running mon
   \<and> max_retries (monitor cfg_far) = 5
   \<and> check_interval_seconds (monitor cfg_far) = 300
   \<and> fst (check_body cfg_far env_day []) =
       Inl (OverflowError ''days must have magnitude <= 999999999'')
   \<and> fst (check_body cfg_far env_day store_day) =
       Inl (OverflowError ''days must have magnitude <= 999999999'')
   \<and> fst (run_loop (monitor cfg_far)
         (cycle_script cfg_far [(False, env_day), (False, env_day), (False, env_day)] []) mon 0)
       = More
   \<and> fst (snd (snd (run_loop (monitor cfg_far)
         (cycle_script cfg_far [(False, env_day), (False, env_day), (False, env_day)] []) mon 0)))
       = 0
   \<and> sleeps (snd (snd (snd (run_loop (monitor cfg_far)
         (cycle_script cfg_far [(False, env_day), (False, env_day), (False, env_day)] []) mon 0))))
       = [300, 300, 300]"
proof -
  let ?cycles = "[(False, env_day), (False, env_day), (False, env_day)]"
  have r: "running mon"
    by (simp add: mon_def)
  have mx: "max_retries (monitor cfg_far) = 5"
    and ci: "check_interval_seconds (monitor cfg_far) = 300"
    by (simp_all add: cfg_far_def cfg_ok_def)
  have tb: "telegram_bot env_day = flaky"
    by (simp add: env_day_def)
  have ok: "\<forall>c \<in> set ?cycles. \<not> fst c \<and> source_errors (scraper_search (snd c))
                                   \<and> channel_errors (telegram_bot (snd c))"
    using source_errors_env_day channel_errors_flaky by (simp add: tb)
  obtain le m' rc tr where
    run: "run_loop (monitor cfg_far) (cycle_script cfg_far ?cycles []) mon 0 = (le, m', rc, tr)"
    by (cases "run_loop (monitor cfg_far) (cycle_script cfg_far ?cycles []) mon 0") auto
  from cycle_errors_no_backoff [OF run] r ok
  have "rc = 0" and "le = More"
    and "sleeps tr = replicate (length ?cycles) (check_interval_seconds (monitor cfg_far))"
    by blast+
  then have "rc = 0" and "le = More" and "sleeps tr = [300, 300, 300]"
    by (simp_all add: ci numeral_3_eq_3)
  with r mx ci body_far body_far_again show ?thesis
    unfolding run by simp
qed

end
